theory Spec2Isabelle
  imports Complex_Main "HOL-Library.Multiset"
begin

section \<open>Errors and Python containers\<close>

text \<open>
  The Python exceptions that the modelled functions of \<^verbatim>\<open>simulation.py\<close> can raise.
  \<open>SystemExit\<close> is what \<^verbatim>\<open>sys.exit(1)\<close> raises. Floating-point numbers are modelled as
  reals throughout, and every call to the random source takes its outcome as an argument.
\<close>

datatype error =
  SystemExit | IndexError | KeyError | TypeError | ValueError | ZeroDivisionError | OverflowError

type_synonym matrix = "real list list"

text \<open>
  \<^verbatim>\<open>xs[i]\<close> on a list or a numpy array: an index from \<open>- len\<close> up to \<open>-1\<close> counts from the
  end, anything outside \<open>[- len, len)\<close> raises IndexError.
\<close>

definition py_index :: "'a list \<Rightarrow> int \<Rightarrow> error + 'a" where
  "py_index xs i =
     (if 0 \<le> i \<and> i < int (length xs) then Inr (xs ! nat i)
      else if i < 0 \<and> - int (length xs) \<le> i then Inr (xs ! nat (int (length xs) + i))
      else Inl IndexError)"

text \<open>\<^verbatim>\<open>range(a, b)\<close> with the default step.\<close>

definition py_range :: "int \<Rightarrow> int \<Rightarrow> int list" where
  "py_range a b = [a..b - 1]"

text \<open>Running a list of fallible computations, stopping at the first error.\<close>

fun collect :: "(error + 'a) list \<Rightarrow> error + 'a list" where
  "collect [] = Inr []"
| "collect (r # rs) =
     (case r of Inl e \<Rightarrow> Inl e
      | Inr x \<Rightarrow> (case collect rs of Inl e \<Rightarrow> Inl e | Inr xs \<Rightarrow> Inr (x # xs)))"

text \<open>\<^verbatim>\<open>np.zeros((rows, cols))\<close>, \<^verbatim>\<open>np.transpose\<close> of a matrix with \<open>T\<close> columns, and
  \<^verbatim>\<open>np.dot(W, H)\<close> for \<open>H\<close> with \<open>G\<close> columns.\<close>

definition zeros :: "nat \<Rightarrow> nat \<Rightarrow> matrix" where
  "zeros rows cols = replicate rows (replicate cols 0)"

definition transpose_np :: "nat \<Rightarrow> matrix \<Rightarrow> matrix" where
  "transpose_np T W = map (\<lambda>t. map (\<lambda>row. row ! t) W) [0..<T]"

text \<open>A matrix whose numpy \<^verbatim>\<open>shape\<close> is \<open>(rows, cols)\<close>.\<close>

definition has_shape :: "nat \<Rightarrow> nat \<Rightarrow> matrix \<Rightarrow> bool" where
  "has_shape rows cols M = (length M = rows \<and> (\<forall>row \<in> set M. length row = cols))"

text \<open>Column \<open>j\<close> of a matrix, \<^verbatim>\<open>M[:, j]\<close>.\<close>

definition column :: "matrix \<Rightarrow> nat \<Rightarrow> real list" where
  "column M j = map (\<lambda>row. row ! j) M"

definition dot :: "nat \<Rightarrow> matrix \<Rightarrow> matrix \<Rightarrow> matrix" where
  "dot G W H = map (\<lambda>w. map (\<lambda>g. sum_list (map2 (\<lambda>a h. a * h ! g) w H)) [0..<G]) W"

text \<open>
  Subtraction of two one-dimensional numpy arrays: equal lengths elementwise, a length-one
  operand is broadcast, any other pair of lengths raises ValueError.
\<close>

definition broadcast_sub :: "real list \<Rightarrow> real list \<Rightarrow> error + real list" where
  "broadcast_sub xs ys =
     (if length xs = length ys then Inr (map2 (-) xs ys)
      else if length ys = 1 then Inr (map (\<lambda>x. x - hd ys) xs)
      else if length xs = 1 then Inr (map (\<lambda>y. hd xs - y) ys)
      else Inl ValueError)"

section \<open>Random partition and gene groups\<close>

text \<open>\<^verbatim>\<open>rng.randrange(k)\<close>: ValueError on an empty range, else the raw random number \<open>u\<close>
  reduced into \<open>[0, k)\<close>.\<close>

definition randrange :: "nat \<Rightarrow> nat \<Rightarrow> error + nat" where
  "randrange k u = (if k = 0 then Inl ValueError else Inr (u mod k))"

text \<open>The loop of \<^verbatim>\<open>random_partition\<close>; \<open>rnd j\<close> is the raw number behind the \<open>j\<close>-th draw.\<close>

fun random_partition_loop ::
  "nat \<Rightarrow> nat list \<Rightarrow> (nat \<Rightarrow> nat) \<Rightarrow> nat \<Rightarrow> nat list list \<Rightarrow> error + nat list list" where
  "random_partition_loop k [] rnd j results = Inr results"
| "random_partition_loop k (v # vs) rnd j results =
     (case randrange k (rnd j) of Inl e \<Rightarrow> Inl e
      | Inr x \<Rightarrow> random_partition_loop k vs rnd (Suc j) (results[x := results ! x @ [v]]))"

definition random_partition :: "nat \<Rightarrow> nat list \<Rightarrow> (nat \<Rightarrow> nat) \<Rightarrow> error + nat list list" where
  "random_partition k iterable rnd = random_partition_loop k iterable rnd 0 (replicate k [])"

text \<open>
  The outcomes of the random source in one call of \<^verbatim>\<open>create_groups\<close>: the two results of
  \<^verbatim>\<open>np.random.permutation(G)\<close> and the raw numbers behind the draws of the two partitions.
\<close>

record group_draws =
  genes1 :: "nat list"
  picks1 :: "nat \<Rightarrow> nat"
  genes2 :: "nat list"
  picks2 :: "nat \<Rightarrow> nat"

text \<open>What \<^verbatim>\<open>np.random.permutation(G)\<close> can return.\<close>

definition is_permutation :: "nat \<Rightarrow> nat list \<Rightarrow> bool" where
  "is_permutation G genes = (mset genes = mset [0..<G])"

definition create_groups :: "nat \<Rightarrow> nat \<Rightarrow> group_draws \<Rightarrow> error + nat list list" where
  "create_groups K G d =
     (case random_partition K (genes1 d) (picks1 d) of Inl e \<Rightarrow> Inl e
      | Inr groups1 \<Rightarrow>
        (case random_partition K (genes2 d) (picks2 d) of Inl e \<Rightarrow> Inl e
         | Inr groups2 \<Rightarrow> Inr (map (\<lambda>(z1, z2). concat [z1, z2]) (zip groups1 groups2))))"

section \<open>Negative-binomial parameters\<close>

text \<open>
  \<^verbatim>\<open>get_pr(a, b, m)\<close>, over the reals. The two quotients are taken in the order of the
  source; a zero denominator is the error \<open>ZeroDivisionError\<close> (what Python floats
  raise; numpy scalars would yield inf or nan, which the model does not follow further).
\<close>

definition get_pr :: "real \<Rightarrow> real \<Rightarrow> real \<Rightarrow> error + real \<times> real" where
  "get_pr a b m =
     (let s2 = a * m ^ 2 + b * m in
      if s2 = 0 then Inl ZeroDivisionError
      else let p = (s2 - m) / s2 in
        if s2 - m = 0 then Inl ZeroDivisionError
        else let r = (m ^ 2) / (s2 - m) in Inr (p, r))"

section \<open>Diffusion and module trajectories\<close>

text \<open>
  The outcomes of the random source in one call of \<^verbatim>\<open>diffusion\<close>: the uniform start,
  the normal initial velocity, the uniform damping and the normal increment of each step.
\<close>

record diffusion_draws =
  W0 :: real
  V0 :: real
  eta :: real
  epsilon :: "nat \<Rightarrow> real"

fun diffusion_walk :: "nat \<Rightarrow> nat \<Rightarrow> (nat \<Rightarrow> real) \<Rightarrow> real \<Rightarrow> real \<Rightarrow> real \<Rightarrow> real list" where
  "diffusion_walk 0 t eps et w v = []"
| "diffusion_walk (Suc n) t eps et w v =
     (w + v) # diffusion_walk n (Suc t) eps et (w + v) (0.95 * v + eps t - et * v)"

text \<open>The array \<open>W\<close> that \<^verbatim>\<open>diffusion(T)\<close> fills for \<open>T > 0\<close>: the start, then the \<open>T - 1\<close>
  steps of the loop.\<close>

definition diffusion_path :: "nat \<Rightarrow> diffusion_draws \<Rightarrow> real list" where
  "diffusion_path T d = W0 d # diffusion_walk (T - 1) 0 (epsilon d) (eta d) (W0 d) (V0 d)"

text \<open>\<^verbatim>\<open>diffusion(T)\<close>; with \<open>T = 0\<close> the store into \<^verbatim>\<open>W[0]\<close> raises IndexError.\<close>

definition diffusion :: "nat \<Rightarrow> diffusion_draws \<Rightarrow> error + real list" where
  "diffusion T d = (if T = 0 then Inl IndexError else Inr (diffusion_path T d))"

text \<open>
  The first component of \<^verbatim>\<open>scipy.stats.pearsonr(x, y)\<close>: the sample correlation
  coefficient, clipped into \<open>[-1, 1]\<close>; \<open>None\<close> stands for nan, returned when one of the
  inputs has no variation. Inputs with fewer than two entries have no variation either;
  there later releases of scipy raise ValueError instead, so the statements below that
  depend on this function are about inputs of length two or more.
\<close>

definition mean :: "real list \<Rightarrow> real" where
  "mean xs = sum_list xs / real (length xs)"

definition pearsonr :: "real list \<Rightarrow> real list \<Rightarrow> real option" where
  "pearsonr x y =
     (let xm = map (\<lambda>v. v - mean x) x; ym = map (\<lambda>v. v - mean y) y;
          r_num = sum_list (map2 (*) xm ym);
          r_den = sqrt (sum_list (map (\<lambda>v. v * v) xm)) * sqrt (sum_list (map (\<lambda>v. v * v) ym))
      in if r_den = 0 then None else Some (max (- 1) (min 1 (r_num / r_den))))"

text \<open>The loop of \<^verbatim>\<open>test_correlation\<close> over the indices \<open>is\<close>; a comparison with nan is false.\<close>

fun test_correlation_loop :: "matrix \<Rightarrow> int \<Rightarrow> real \<Rightarrow> int list \<Rightarrow> error + bool" where
  "test_correlation_loop W k cutoff [] = Inr False"
| "test_correlation_loop W k cutoff (i # is) =
     (case py_index W k of Inl e \<Rightarrow> Inl e
      | Inr wk \<Rightarrow>
        (case py_index W i of Inl e \<Rightarrow> Inl e
         | Inr wi \<Rightarrow>
           (case pearsonr wk wi of
              Some p \<Rightarrow> if p > cutoff then Inr True else test_correlation_loop W k cutoff is
            | None \<Rightarrow> test_correlation_loop W k cutoff is)))"

definition test_correlation :: "matrix \<Rightarrow> int \<Rightarrow> real \<Rightarrow> error + bool" where
  "test_correlation W k cutoff = test_correlation_loop W k cutoff (py_range (k - 1) 0)"

text \<open>
  The \<^verbatim>\<open>while\<close> loop of \<^verbatim>\<open>simulate_W\<close> on the state \<open>(W, k, loops)\<close>; \<open>n\<close> counts the calls
  of \<^verbatim>\<open>diffusion\<close> made so far and \<open>src n\<close> holds the draws of the next one. The result
  \<open>None\<close> means that the loop never ends. A rejected column adds one to \<open>loops\<close> and
  \<^verbatim>\<open>continue\<close>s; an accepted one sets \<open>loops\<close> to \<open>0\<close> and only then reaches the test
  \<^verbatim>\<open>loops > maxloops\<close>, here \<open>0 > maxloops\<close>. The recursive call \<^verbatim>\<open>simulate_W(T)\<close> behind that
  test omits the required argument \<^verbatim>\<open>K\<close>, so reaching it raises TypeError.
\<close>

partial_function (option) simulate_W_loop ::
  "nat \<Rightarrow> nat \<Rightarrow> real \<Rightarrow> int \<Rightarrow> (nat \<Rightarrow> diffusion_draws) \<Rightarrow> matrix \<Rightarrow> nat \<Rightarrow> int \<Rightarrow> nat
     \<Rightarrow> (error + matrix) option" where
  "simulate_W_loop T K cutoff maxloops src W k loops n =
     (if k < K then
        (case diffusion T (src n) of Inl e \<Rightarrow> Some (Inl e)
         | Inr col \<Rightarrow>
           (case test_correlation (W[k := col]) (int k) cutoff of Inl e \<Rightarrow> Some (Inl e)
            | Inr correlates \<Rightarrow>
                if correlates
                then simulate_W_loop T K cutoff maxloops src (W[k := col]) k (loops + 1) (Suc n)
                else if 0 > maxloops then Some (Inl TypeError)
                else simulate_W_loop T K cutoff maxloops src (W[k := col]) (k + 1) 0 (Suc n)))
      else Some (Inr (transpose_np T W)))"

definition simulate_W ::
  "nat \<Rightarrow> nat \<Rightarrow> real \<Rightarrow> int \<Rightarrow> (nat \<Rightarrow> diffusion_draws) \<Rightarrow> (error + matrix) option" where
  "simulate_W T K cutoff maxloops src = simulate_W_loop T K cutoff maxloops src (zeros K T) 0 0 0"

section \<open>Membership matrix\<close>

text \<open>
  \<^verbatim>\<open>scipy.stats.beta.rvs(a, b)\<close>: the shape parameters must be positive, else
  ValueError; \<open>x\<close> is the variate that the random source yields.
\<close>

definition beta_rvs :: "real \<Rightarrow> real \<Rightarrow> real \<Rightarrow> error + real" where
  "beta_rvs a b x = (if 0 < a \<and> 0 < b then Inr x else Inl ValueError)"

text \<open>The inner loop of \<^verbatim>\<open>simulate_H\<close> over the genes of one group, on row \<open>h\<close> of \<open>H\<close>;
  \<open>n\<close> counts the beta variates drawn so far.\<close>

fun simulate_H_row ::
  "nat list \<Rightarrow> real \<Rightarrow> real \<Rightarrow> (nat \<Rightarrow> real) \<Rightarrow> nat \<Rightarrow> real list \<Rightarrow> error + real list \<times> nat" where
  "simulate_H_row [] a b betas n h = Inr (h, n)"
| "simulate_H_row (g # gs) a b betas n h =
     (if g < length h then
        (case beta_rvs a b (betas n) of Inl e \<Rightarrow> Inl e
         | Inr x \<Rightarrow> simulate_H_row gs a b betas (Suc n) (h[g := h ! g + x]))
      else Inl IndexError)"

fun simulate_H_loop ::
  "nat list \<Rightarrow> nat list list \<Rightarrow> real \<Rightarrow> real \<Rightarrow> (nat \<Rightarrow> real) \<Rightarrow> nat \<Rightarrow> matrix \<Rightarrow> error + matrix" where
  "simulate_H_loop [] groups a b betas n H = Inr H"
| "simulate_H_loop (k # ks) groups a b betas n H =
     (case py_index groups (int k) of Inl e \<Rightarrow> Inl e
      | Inr grp \<Rightarrow>
        (case simulate_H_row grp a b betas n (H ! k) of Inl e \<Rightarrow> Inl e
         | Inr (h, n') \<Rightarrow> simulate_H_loop ks groups a b betas n' (H[k := h])))"

definition simulate_H ::
  "nat \<Rightarrow> nat \<Rightarrow> nat list list \<Rightarrow> real \<Rightarrow> real \<Rightarrow> (nat \<Rightarrow> real) \<Rightarrow> error + matrix" where
  "simulate_H K G groups a b betas = simulate_H_loop [0..<K] groups a b betas 0 (zeros K G)"

section \<open>Branch mean-expression composer\<close>

text \<open>The tree object, as far as \<^verbatim>\<open>simulation.py\<close> reads it: the four attributes that
  \<^verbatim>\<open>simulate_branching_data\<close> uses, what \<^verbatim>\<open>tree.populate_timezone()\<close> and
  \<^verbatim>\<open>tree.branch_times()\<close> return (a list of intervals, and a dictionary from branch to
  interval in its iteration order), and \<^verbatim>\<open>tree.means\<close>.\<close>

record tree =
  branches :: nat
  time :: "nat list"
  modules :: "nat list"
  topology :: "(nat \<times> nat) list"
  populate_timezone :: "(int \<times> int) list"
  branch_times :: "(nat \<times> (int \<times> int)) list"
  means :: "matrix list"

definition bifurc_adjust :: "matrix \<Rightarrow> matrix \<Rightarrow> error + matrix" where
  "bifurc_adjust Mu_bif Mu =
     (case py_index Mu_bif 0 of Inl e \<Rightarrow> Inl e
      | Inr first_row \<Rightarrow>
        (case py_index Mu (- 1) of Inl e \<Rightarrow> Inl e
         | Inr last_row \<Rightarrow>
           (case broadcast_sub first_row last_row of Inl e \<Rightarrow> Inl e
            | Inr dif \<Rightarrow> collect (map (\<lambda>row. broadcast_sub row dif) Mu_bif))))"

text \<open>The outcomes of the random source while one branch is simulated.\<close>

record branch_draws =
  walks :: "nat \<Rightarrow> diffusion_draws"
  grouping :: group_draws
  betas :: "nat \<Rightarrow> real"

text \<open>The body of the loop over the branches: \<open>W\<close>, \<open>H\<close> and \<open>Mu\<close> of one branch.\<close>

definition simulate_branch ::
  "nat \<Rightarrow> nat \<Rightarrow> nat \<Rightarrow> branch_draws \<Rightarrow> (error + matrix \<times> matrix \<times> matrix) option" where
  "simulate_branch G T K d =
     (case simulate_W T K 0.2 100 (walks d) of None \<Rightarrow> None
      | Some (Inl e) \<Rightarrow> Some (Inl e)
      | Some (Inr W) \<Rightarrow>
        (case create_groups K G (grouping d) of Inl e \<Rightarrow> Some (Inl e)
         | Inr groups \<Rightarrow>
           (case simulate_H K G groups 2 2 (betas d) of Inl e \<Rightarrow> Some (Inl e)
            | Inr H \<Rightarrow> Some (Inr (W, H, dot G W H)))))"

fun simulate_branches ::
  "nat \<Rightarrow> nat list \<Rightarrow> nat list \<Rightarrow> (nat \<Rightarrow> branch_draws) \<Rightarrow> nat list
     \<Rightarrow> matrix list \<Rightarrow> matrix list \<Rightarrow> (error + matrix list \<times> matrix list) option" where
  "simulate_branches G Ts Ks src [] Ws Ms = Some (Inr (Ws, Ms))"
| "simulate_branches G Ts Ks src (i # is) Ws Ms =
     (case simulate_branch G (Ts ! i) (Ks ! i) (src i) of None \<Rightarrow> None
      | Some (Inl e) \<Rightarrow> Some (Inl e)
      | Some (Inr (W, H, Mu)) \<Rightarrow> simulate_branches G Ts Ks src is (Ws[i := W]) (Ms[i := Mu]))"

text \<open>The loop over \<^verbatim>\<open>tree.topology\<close>, in the order of the list.\<close>

fun apply_topology :: "(nat \<times> nat) list \<Rightarrow> matrix list \<Rightarrow> error + matrix list" where
  "apply_topology [] Ms = Inr Ms"
| "apply_topology (b # bs) Ms =
     (if snd b < length Ms \<and> fst b < length Ms then
        (case bifurc_adjust (Ms ! snd b) (Ms ! fst b) of Inl e \<Rightarrow> Inl e
         | Inr M \<Rightarrow> apply_topology bs (Ms[snd b := M]))
      else Inl IndexError)"

text \<open>
  An order of the edges under which the loop above leaves every edge continuous: no edge
  is a loop, and neither end of an edge is the child of a later edge (so a branch is
  adjusted to its own parent before its children are adjusted to it, and only once).
\<close>

fun topological :: "(nat \<times> nat) list \<Rightarrow> bool" where
  "topological [] = True"
| "topological (b # bs) =
     (fst b \<noteq> snd b \<and> fst b \<notin> snd ` set bs \<and> snd b \<notin> snd ` set bs \<and> topological bs)"

text \<open>\<^verbatim>\<open>simulate_branching_data(G, tree)\<close>; \<open>src i\<close> holds the draws for branch \<open>i\<close>. The
  result is the pair \<open>(Ms, Ws)\<close>; \<open>None\<close> means that the call never returns.\<close>

definition simulate_branching_data ::
  "nat \<Rightarrow> tree \<Rightarrow> (nat \<Rightarrow> branch_draws) \<Rightarrow> (error + matrix list \<times> matrix list) option" where
  "simulate_branching_data G tr src =
     (let Ts = time tr; Ks = modules tr; lengths = [length Ts, length Ks] in
      if \<not> list_all (\<lambda>l. l = branches tr) lengths then Some (Inl SystemExit)
      else
        let Ws = map (\<lambda>i. zeros (Ts ! i) (Ks ! i)) [0..<branches tr];
            Ms = map (\<lambda>i. zeros (Ts ! i) G) [0..<branches tr]
        in (case simulate_branches G Ts Ks src [0..<branches tr] Ws Ms of None \<Rightarrow> None
            | Some (Inl e) \<Rightarrow> Some (Inl e)
            | Some (Inr (Ws', Ms')) \<Rightarrow>
              (case apply_topology (topology tr) Ms' of Inl e \<Rightarrow> Some (Inl e)
               | Inr Ms'' \<Rightarrow> Some (Inr (Ms'', Ws')))))"

section \<open>Sampling\<close>

text \<open>\<^verbatim>\<open>M[i][g]\<close>, and the lookup of a mean with its handler for IndexError.\<close>

definition entry :: "matrix \<Rightarrow> int \<Rightarrow> nat \<Rightarrow> error + real" where
  "entry M i g = (case py_index M i of Inl e \<Rightarrow> Inl e | Inr row \<Rightarrow> py_index row (int g))"

definition mean_lookup :: "matrix \<Rightarrow> int \<Rightarrow> nat \<Rightarrow> error + real" where
  "mean_lookup M i g =
     (if entry M i g = Inl IndexError then entry M (- 1) g else entry M i g)"

text \<open>
  \<^verbatim>\<open>custm.rvs(p, r)\<close> of the \<^verbatim>\<open>rv_discrete\<close> subclass: scipy's default argument check
  wants every shape parameter positive and raises ValueError otherwise; \<open>x\<close> is the count
  that the random source yields.
\<close>

definition custm_rvs :: "nat \<Rightarrow> real \<Rightarrow> real \<Rightarrow> error + nat" where
  "custm_rvs x p r = (if 0 < p \<and> 0 < r then Inr x else Inl ValueError)"

text \<open>The loop over the genes of one cell, the same text in both samplers; \<open>i\<close> is the row
  index \<^verbatim>\<open>t - T_off\<close> and \<open>draws g\<close> the count drawn for gene \<open>g\<close>. Of the two samplers only
  \<^verbatim>\<open>sample_data_with_absolute_times\<close> is modelled around this loop: \<^verbatim>\<open>sample_data\<close> calls
  \<^verbatim>\<open>get_max_time\<close> and \<^verbatim>\<open>populate_timezone\<close> and reads \<^verbatim>\<open>branch_points\<close>, none of which the
  file defines.\<close>

fun sample_genes ::
  "matrix \<Rightarrow> int \<Rightarrow> real \<Rightarrow> real \<Rightarrow> (nat \<Rightarrow> nat) \<Rightarrow> nat list \<Rightarrow> error + nat list" where
  "sample_genes M i alpha beta draws [] = Inr []"
| "sample_genes M i alpha beta draws (g # gs) =
     (case mean_lookup M i g of Inl e \<Rightarrow> Inl e
      | Inr mu \<Rightarrow>
        (case get_pr alpha beta mu of Inl e \<Rightarrow> Inl e
         | Inr (p, r) \<Rightarrow>
           (case custm_rvs (draws g) p r of Inl e \<Rightarrow> Inl e
            | Inr x \<Rightarrow>
              (case sample_genes M i alpha beta draws gs of Inl e \<Rightarrow> Inl e
               | Inr xs \<Rightarrow> Inr (x # xs)))))"

definition belongs_to :: "int \<times> int \<Rightarrow> int \<times> int \<Rightarrow> bool" where
  "belongs_to timezone branch = (fst timezone \<ge> fst branch \<and> snd timezone \<le> snd branch)"

text \<open>A \<^verbatim>\<open>defaultdict(list)\<close>: a read of a missing key yields the empty list.\<close>

definition dd_get :: "(int \<rightharpoonup> 'a list) \<Rightarrow> int \<Rightarrow> 'a list" where
  "dd_get res i = (case res i of None \<Rightarrow> [] | Some ks \<Rightarrow> ks)"

definition dd_append :: "(int \<rightharpoonup> 'a list) \<Rightarrow> int \<Rightarrow> 'a \<Rightarrow> (int \<rightharpoonup> 'a list)" where
  "dd_append res i k = res(i \<mapsto> dd_get res i @ [k])"

definition assign_branches ::
  "(nat \<times> (int \<times> int)) list \<Rightarrow> (int \<times> int) list \<Rightarrow> (int \<rightharpoonup> nat list)" where
  "assign_branches btimes timezone =
     fold (\<lambda>i res.
        fold (\<lambda>(k, b) res. if belongs_to (timezone ! i) b then dd_append res (int i) k else res)
          btimes res)
       [0..<length timezone] Map.empty"

text \<open>\<^verbatim>\<open>rng.choice(seq)\<close>: IndexError on an empty sequence, else the element at the raw
  random number \<open>u\<close> reduced into the range of indices.\<close>

definition rng_choice :: "nat \<Rightarrow> 'a list \<Rightarrow> error + 'a" where
  "rng_choice u xs = (if xs = [] then Inl IndexError else Inr (xs ! (u mod length xs)))"

text \<open>The search loop of \<^verbatim>\<open>pick_branch\<close>: the index of the first interval that holds \<open>t\<close>,
  or the initial value \<open>-1\<close>.\<close>

fun first_zone :: "int \<Rightarrow> (int \<times> int) list \<Rightarrow> nat \<Rightarrow> int" where
  "first_zone t [] i = - 1"
| "first_zone t (branch # rest) i =
     (if t \<ge> fst branch \<and> t \<le> snd branch then int i else first_zone t rest (Suc i))"

text \<open>
  \<^verbatim>\<open>pick_branch\<close>: the handler for IndexError prints and falls off the end of the
  function, so the call returns Python's \<^verbatim>\<open>None\<close>, here \<open>Inr None\<close>.
\<close>

definition pick_branch ::
  "int \<Rightarrow> (int \<times> int) list \<Rightarrow> (int \<rightharpoonup> nat list) \<Rightarrow> nat \<Rightarrow> error + nat option" where
  "pick_branch t timezone assignments u =
     (let b = first_zone t timezone 0; possibilities = dd_get assignments b in
      case rng_choice u possibilities of
        Inr x \<Rightarrow> Inr (Some x)
      | Inl e \<Rightarrow> if e = IndexError then Inr None else Inl e)"

text \<open>
  One round of the loop over the cells in \<^verbatim>\<open>sample_data_with_absolute_times\<close>: the row of
  counts, the label and the branch of the cell with pseudotime \<open>t\<close>. The label and the branch
  are stored inside the loop over the genes, so they stay zero when there is no gene.
\<close>

definition sample_cell ::
  "nat \<Rightarrow> tree \<Rightarrow> (int \<rightharpoonup> nat list) \<Rightarrow> real \<Rightarrow> real \<Rightarrow> int \<Rightarrow> nat \<Rightarrow> (nat \<Rightarrow> nat)
     \<Rightarrow> error + nat list \<times> int \<times> nat" where
  "sample_cell G tr assignments alpha beta t u draws =
     (case pick_branch t (populate_timezone tr) assignments u of Inl e \<Rightarrow> Inl e
      | Inr None \<Rightarrow> Inl KeyError
      | Inr (Some b) \<Rightarrow>
        (case map_of (branch_times tr) b of None \<Rightarrow> Inl KeyError
         | Some interval \<Rightarrow>
           (case py_index (means tr) (int b) of Inl e \<Rightarrow> Inl e
            | Inr M \<Rightarrow>
              (case sample_genes M (t - fst interval) alpha beta draws [0..<G] of Inl e \<Rightarrow> Inl e
               | Inr xs \<Rightarrow> Inr (xs, if G = 0 then 0 else t, if G = 0 then 0 else b)))))"

fun sample_cells ::
  "nat \<Rightarrow> tree \<Rightarrow> (int \<rightharpoonup> nat list) \<Rightarrow> real \<Rightarrow> real \<Rightarrow> int list \<Rightarrow> nat \<Rightarrow> (nat \<Rightarrow> nat)
     \<Rightarrow> (nat \<Rightarrow> nat \<Rightarrow> nat) \<Rightarrow> error + (nat list \<times> int \<times> nat) list" where
  "sample_cells G tr assignments alpha beta [] n us draws = Inr []"
| "sample_cells G tr assignments alpha beta (t # ts) n us draws =
     (case sample_cell G tr assignments alpha beta t (us n) (draws n) of Inl e \<Rightarrow> Inl e
      | Inr cell \<Rightarrow>
        (case sample_cells G tr assignments alpha beta ts (Suc n) us draws of Inl e \<Rightarrow> Inl e
         | Inr cells \<Rightarrow> Inr (cell # cells)))"

text \<open>\<^verbatim>\<open>sample_data_with_absolute_times\<close>; \<open>us n\<close> is the raw number behind the choice of
  the branch of cell \<open>n\<close> and \<open>draws n g\<close> the count drawn for its gene \<open>g\<close>. The result lists
  the rows of \<open>X\<close>, each with its label and branch.\<close>

definition sample_data_with_absolute_times ::
  "nat \<Rightarrow> nat \<Rightarrow> tree \<Rightarrow> int list \<Rightarrow> real \<Rightarrow> real \<Rightarrow> (nat \<Rightarrow> nat) \<Rightarrow> (nat \<Rightarrow> nat \<Rightarrow> nat)
     \<Rightarrow> error + (nat list \<times> int \<times> nat) list" where
  "sample_data_with_absolute_times n_factor G tr sample_times alpha beta us draws =
     (let timestamps = concat (map (replicate n_factor) sample_times);
          assignments = assign_branches (branch_times tr) (populate_timezone tr)
      in sample_cells G tr assignments alpha beta timestamps 0 us draws)"





section \<open>Sample inputs\<close>

text \<open>
  Inputs for the examples below: a random source under which every diffusion of length two
  is \<open>[0.5, 1]\<close>, the only gene falls into the first group twice and every beta variate is
  \<open>0.5\<close>; and a tree of three branches, each with two pseudotime steps and two modules, over
  a given list of edges.
\<close>

definition steady_walk :: diffusion_draws where
  "steady_walk = \<lparr>W0 = 1 / 2, V0 = 1 / 2, eta = 0, epsilon = (\<lambda>t. 0)\<rparr>"

definition steady_draws :: branch_draws where
  "steady_draws =
     \<lparr>walks = (\<lambda>n. steady_walk),
      grouping = \<lparr>genes1 = [0], picks1 = (\<lambda>j. 0), genes2 = [0], picks2 = (\<lambda>j. 0)\<rparr>,
      betas = (\<lambda>n. 1 / 2)\<rparr>"

definition three_branches :: "(nat \<times> nat) list \<Rightarrow> tree" where
  "three_branches edges =
     \<lparr>branches = 3, time = [2, 2, 2], modules = [2, 2, 2], topology = edges,
      populate_timezone = [], branch_times = [], means = []\<rparr>"

section \<open>Properties of get_pr\<close>

lemma s2_exceeds_mean:
  fixes a b m :: real
  assumes "0 < m" and "1 < a * m + b"
  shows "m < a * m ^ 2 + b * m"
proof -
  have "m * 1 < m * (a * m + b)"
    using assms by (intro mult_strict_left_mono) simp_all
  then show ?thesis
    by (simp add: algebra_simps power2_eq_square)
qed

text \<open>
  Claim C4. For reals \<open>a\<close>, \<open>b\<close>, \<open>m\<close> with \<open>m > 0\<close> and \<open>a * m + b > 1\<close>, \<open>get_pr\<close> returns
  \<open>p = (s2 - m) / s2\<close> and \<open>r = m\<^sup>2 / (s2 - m)\<close> for \<open>s2 = a * m\<^sup>2 + b * m\<close>; then
  \<open>0 < p < 1\<close>, \<open>r > 0\<close>, and the negative-binomial mean \<open>p * r / (1 - p)\<close> is \<open>m\<close> and
  the variance \<open>p * r / (1 - p)\<^sup>2\<close> is \<open>a * m\<^sup>2 + b * m\<close>.
\<close>

theorem get_pr_moments:
  fixes a b m :: real
  assumes "0 < m" and "1 < a * m + b"
  shows "\<exists>p r. get_pr a b m = Inr (p, r)
           \<and> p = ((a * m ^ 2 + b * m) - m) / (a * m ^ 2 + b * m)
           \<and> r = m ^ 2 / ((a * m ^ 2 + b * m) - m)
           \<and> 0 < p \<and> p < 1 \<and> 0 < r
           \<and> p * r / (1 - p) = m
           \<and> p * r / (1 - p) ^ 2 = a * m ^ 2 + b * m"
proof -
  define s2 where "s2 = a * m ^ 2 + b * m"
  define p where "p = (s2 - m) / s2"
  define r where "r = m ^ 2 / (s2 - m)"
  have gt: "m < s2"
    unfolding s2_def using assms by (rule s2_exceeds_mean)
  have pos: "0 < s2" "0 < s2 - m" "s2 \<noteq> 0" "s2 - m \<noteq> 0" "m \<noteq> 0"
    using gt assms(1) by simp_all
  have run: "get_pr a b m = Inr (p, r)"
    using pos by (simp add: get_pr_def Let_def s2_def [symmetric] p_def r_def)
  have p_pos: "0 < p" and p_lt: "p < 1"
    using pos gt assms(1) by (simp_all add: p_def)
  have r_pos: "0 < r"
    using pos assms(1) by (simp add: r_def)
  have one_minus: "1 - p = m / s2"
    using pos by (simp add: p_def field_simps)
  have pr: "p * r = m ^ 2 / s2"
    using pos by (simp add: p_def r_def)
  have mean: "p * r / (1 - p) = m"
    using pos by (simp add: pr one_minus power2_eq_square)
  have var: "p * r / (1 - p) ^ 2 = s2"
    using pos by (simp add: pr one_minus power2_eq_square field_simps)
  show ?thesis
    using run p_pos p_lt r_pos mean var
    unfolding p_def r_def s2_def by blast
qed

theorem get_pr_moments_witness:
  "(0::real) < 2 \<and> (1::real) < (3 / 10) * 2 + 2
   \<and> get_pr (3 / 10) 2 2 = Inr (8 / 13, 5 / 4)"
  using get_pr_moments [of 2 "3 / 10" 2]
  by (simp add: get_pr_def Let_def power2_eq_square)


section \<open>Python indexing\<close>

lemma py_index_last: "xs \<noteq> [] \<Longrightarrow> py_index xs (- 1) = Inr (last xs)"
  by (cases xs rule: rev_cases) (simp_all add: py_index_def nth_append)



lemma py_index_nat: "g < length xs \<Longrightarrow> py_index xs (int g) = Inr (xs ! g)"
  by (simp add: py_index_def)


lemma py_index_error_iff:
  "py_index xs i = Inl e \<longleftrightarrow> e = IndexError \<and> (int (length xs) \<le> i \<or> i < - int (length xs))"
  by (auto simp: py_index_def)

section \<open>Mean lookup\<close>











section \<open>Branch lookup\<close>









section \<open>Row indices that the sampler computes\<close>










section \<open>Timestamps\<close>







section \<open>Gene groups\<close>

lemma mset_concat_append_at:
  "x < length rs \<Longrightarrow> mset (concat (rs[x := rs ! x @ [v]])) = add_mset v (mset (concat rs))"
proof (induction rs arbitrary: x)
  case Nil
  then show ?case by simp
next
  case (Cons r rs)
  then show ?case by (cases x) simp_all
qed

lemma random_partition_loop_mset:
  assumes "0 < k" and "length results = k"
  shows "\<exists>res. random_partition_loop k vs rnd j results = Inr res \<and> length res = k
           \<and> mset (concat res) = mset (concat results) + mset vs"
  using assms(2)
proof (induction vs arbitrary: j results)
  case Nil
  then show ?case by simp
next
  case (Cons v vs)
  let ?x = "rnd j mod k"
  let ?results = "results[?x := results ! ?x @ [v]]"
  have x: "?x < length results"
    using assms(1) Cons.prems by simp
  have len: "length ?results = k"
    using Cons.prems by simp
  obtain res where res: "random_partition_loop k vs rnd (Suc j) ?results = Inr res"
    "length res = k" "mset (concat res) = mset (concat ?results) + mset vs"
    using Cons.IH [OF len] by blast
  have "random_partition_loop k (v # vs) rnd j results = Inr res"
    using assms(1) res(1) by (simp add: randrange_def)
  moreover have "mset (concat res) = mset (concat results) + mset (v # vs)"
    using res(3) mset_concat_append_at [OF x] by simp
  ultimately show ?case
    using res(2) by blast
qed

lemma random_partition_mset:
  assumes "0 < k"
  shows "\<exists>res. random_partition k vs rnd = Inr res \<and> length res = k
           \<and> mset (concat res) = mset vs"
proof -
  have "concat (replicate k ([] :: nat list)) = []"
    by (induction k) simp_all
  then show ?thesis
    using random_partition_loop_mset [OF assms, of "replicate k []" vs rnd 0]
    by (simp add: random_partition_def)
qed

lemma mset_concat_zip:
  "length xs = length ys \<Longrightarrow>
     mset (concat (map (\<lambda>(z1, z2). concat [z1, z2]) (zip xs ys)))
       = mset (concat xs) + mset (concat ys)"
  by (induction xs ys rule: list_induct2) simp_all

lemma create_groups_mset:
  assumes "0 < K"
  shows "\<exists>groups. create_groups K G d = Inr groups \<and> length groups = K
           \<and> mset (concat groups) = mset (genes1 d) + mset (genes2 d)"
proof -
  obtain groups1 where g1: "random_partition K (genes1 d) (picks1 d) = Inr groups1"
    "length groups1 = K" "mset (concat groups1) = mset (genes1 d)"
    using random_partition_mset [OF assms] by blast
  obtain groups2 where g2: "random_partition K (genes2 d) (picks2 d) = Inr groups2"
    "length groups2 = K" "mset (concat groups2) = mset (genes2 d)"
    using random_partition_mset [OF assms] by blast
  let ?groups = "map (\<lambda>(z1, z2). concat [z1, z2]) (zip groups1 groups2)"
  have "create_groups K G d = Inr ?groups"
    by (simp add: create_groups_def g1(1) g2(1))
  moreover have "length ?groups = K"
    using g1(2) g2(2) by simp
  moreover have "mset (concat ?groups) = mset (genes1 d) + mset (genes2 d)"
    using mset_concat_zip [of groups1 groups2] g1(2,3) g2(2,3) by simp
  ultimately show ?thesis by blast
qed

text \<open>
  Claim C9. For \<open>K \<ge> 1\<close> and every \<open>G\<close>, whatever the two permutations of the \<open>G\<close> gene indices
  and the draws of the two partitions are, \<open>create_groups\<close> returns exactly \<open>K\<close> lists, every
  listed index lies in \<open>[0, G)\<close>, and the lists together hold every gene index at least once
  (in fact exactly twice, once from each permutation).
\<close>

theorem create_groups_cover:
  assumes "1 \<le> K" and "is_permutation G (genes1 d)" and "is_permutation G (genes2 d)"
  shows "\<exists>groups. create_groups K G d = Inr groups \<and> length groups = K
           \<and> (\<forall>grp \<in> set groups. \<forall>i \<in> set grp. i < G)
           \<and> (\<forall>g<G. 1 \<le> count (mset (concat groups)) g)
           \<and> mset (concat groups) = mset [0..<G] + mset [0..<G]"
proof -
  from assms(1) have "0 < K" by simp
  then obtain groups where groups: "create_groups K G d = Inr groups" "length groups = K"
    "mset (concat groups) = mset (genes1 d) + mset (genes2 d)"
    using create_groups_mset by blast
  have all: "mset (concat groups) = mset [0..<G] + mset [0..<G]"
    using groups(3) assms(2,3) by (simp add: is_permutation_def)
  then have "set_mset (mset (concat groups)) = set_mset (mset [0..<G] + mset [0..<G])"
    by simp
  then have members: "set (concat groups) = {0..<G}"
    by simp
  have inside: "\<forall>grp \<in> set groups. \<forall>i \<in> set grp. i < G"
  proof (intro ballI)
    fix grp i assume "grp \<in> set groups" "i \<in> set grp"
    then have "i \<in> set (concat groups)" by auto
    with members show "i < G" by simp
  qed
  have twice: "\<forall>g<G. 1 \<le> count (mset (concat groups)) g"
  proof (intro allI impI)
    fix g assume "g < G"
    with members have "g \<in># mset (concat groups)" by simp
    then have "0 < count (mset (concat groups)) g"
      by (simp only: count_greater_zero_iff)
    then show "1 \<le> count (mset (concat groups)) g" by simp
  qed
  show ?thesis
    using groups(1,2) inside twice all by blast
qed

theorem create_groups_cover_witness:
  "(1::nat) \<le> 2 \<and> is_permutation 2 [1, 0] \<and> is_permutation 2 [0, 1]
   \<and> create_groups 2 2 \<lparr>genes1 = [1, 0], picks1 = (\<lambda>j. j), genes2 = [0, 1], picks2 = (\<lambda>j. 0)\<rparr>
       = Inr [[1, 0, 1], [0]]"
proof -
  let ?d = "\<lparr>genes1 = [1, 0], picks1 = (\<lambda>j. j), genes2 = [0, 1], picks2 = (\<lambda>j. 0)\<rparr>"
  have k: "(1::nat) \<le> 2" by simp
  have p1: "is_permutation 2 (genes1 ?d)"
    by (simp add: is_permutation_def upt_rec numeral_2_eq_2)
  have p2: "is_permutation 2 (genes2 ?d)"
    by (simp add: is_permutation_def upt_rec numeral_2_eq_2)
  have run: "create_groups 2 2 ?d = Inr [[1, 0, 1], [0]]"
    by (simp add: create_groups_def random_partition_def randrange_def numeral_2_eq_2)
  show ?thesis
    using create_groups_cover [OF k p1 p2] p1 p2 run by simp
qed

section \<open>Correlation test\<close>

lemma py_range_empty: "b \<le> a \<Longrightarrow> py_range a b = []"
  by (simp add: py_range_def)

lemma py_range_minus_one: "py_range (- 1) 0 = [- 1]"
  by (simp add: py_range_def)

lemma test_correlation_later_column:
  "1 \<le> k \<Longrightarrow> test_correlation W (int k) cutoff = Inr False"
  by (simp add: test_correlation_def py_range_empty)

lemma mean_zeros: "mean (replicate T 0) = 0"
  by (simp add: mean_def sum_list_replicate)

lemma pearsonr_zeros: "pearsonr x (replicate T 0) = None"
  by (simp add: pearsonr_def Let_def mean_zeros sum_list_replicate)

lemma map2_same: "map2 f xs xs = map (\<lambda>x. f x x) xs"
  by (induction xs) simp_all

lemma pearsonr_self:
  assumes "0 < sum_list (map (\<lambda>v. (v - mean x) * (v - mean x)) x)"
  shows "pearsonr x x = Some 1"
  using assms by (simp add: pearsonr_def Let_def map2_same comp_def)

lemma test_correlation_first_of_many:
  assumes "2 \<le> K"
  shows "test_correlation ((zeros K T)[0 := col]) (int 0) cutoff = Inr False"
proof -
  let ?W = "(zeros K T)[0 := col]"
  have len: "length ?W = K" by (simp add: zeros_def)
  have first: "py_index ?W 0 = Inr col"
    using assms by (simp add: py_index_def zeros_def)
  have "last ?W = replicate T 0"
    using assms by (simp add: zeros_def last_list_update)
  moreover have "?W \<noteq> []" using assms len by auto
  ultimately have lst: "py_index ?W (- 1) = Inr (replicate T 0)"
    by (simp add: py_index_last)
  show ?thesis
    by (simp add: test_correlation_def py_range_minus_one first lst pearsonr_zeros)
qed

lemma test_correlation_single:
  assumes "pearsonr col col = Some p" and "cutoff < p"
  shows "test_correlation [col] (int 0) cutoff = Inr True"
  using assms by (simp add: test_correlation_def py_range_minus_one py_index_def)

section \<open>Module trajectories\<close>

lemma simulate_W_loop_accepts_rest:
  assumes "0 < T" and "0 \<le> maxloops"
  shows "1 \<le> k \<Longrightarrow> k \<le> K \<Longrightarrow> length W = K \<Longrightarrow>
     simulate_W_loop T K cutoff maxloops src W k loops n
       = Some (Inr (transpose_np T
           (map (\<lambda>j. if j < k then W ! j else diffusion_path T (src (n + j - k))) [0..<K])))"
proof (induction "K - k" arbitrary: W k loops n)
  case 0
  then have "k = K" by simp
  have "map (\<lambda>j. if j < k then W ! j else diffusion_path T (src (n + j - k))) [0..<K]
      = map (\<lambda>j. W ! j) [0..<K]"
    using \<open>k = K\<close> by (intro map_cong) simp_all
  also have "\<dots> = W"
    unfolding 0(4) [symmetric] by (rule map_nth)
  finally show ?case
    using \<open>k = K\<close> by (subst simulate_W_loop.simps) simp
next
  case (Suc m)
  then have k: "k < K" "1 \<le> k" by simp_all
  let ?col = "diffusion_path T (src n)"
  let ?W = "W[k := ?col]"
  have step: "simulate_W_loop T K cutoff maxloops src W k loops n
      = simulate_W_loop T K cutoff maxloops src ?W (k + 1) 0 (Suc n)"
    using k assms
    by (subst simulate_W_loop.simps) (simp add: diffusion_def test_correlation_later_column)
  have m: "m = K - (k + 1)" using Suc(2) by simp
  have rest: "simulate_W_loop T K cutoff maxloops src ?W (k + 1) 0 (Suc n)
      = Some (Inr (transpose_np T
          (map (\<lambda>j. if j < k + 1 then ?W ! j else diffusion_path T (src (Suc n + j - (k + 1))))
             [0..<K])))"
    using k Suc(5) by (intro Suc(1) [OF m]) simp_all
  have same: "map (\<lambda>j. if j < k + 1 then ?W ! j else diffusion_path T (src (Suc n + j - (k + 1))))
        [0..<K]
      = map (\<lambda>j. if j < k then W ! j else diffusion_path T (src (n + j - k))) [0..<K]"
  proof (rule map_cong)
    fix j assume "j \<in> set [0..<K]"
    then have "j < length W" using Suc(5) by simp
    then show "(if j < k + 1 then ?W ! j else diffusion_path T (src (Suc n + j - (k + 1))))
        = (if j < k then W ! j else diffusion_path T (src (n + j - k)))"
      by (cases "j = k") (auto simp: nth_list_update)
  qed simp
  show ?case
    by (simp only: step rest same)
qed

lemma simulate_W_accepts_all:
  assumes "0 < T" and "0 \<le> maxloops" and "2 \<le> K"
  shows "simulate_W T K cutoff maxloops src
     = Some (Inr (transpose_np T (map (\<lambda>j. diffusion_path T (src j)) [0..<K])))"
proof -
  let ?col = "diffusion_path T (src 0)"
  let ?W = "(zeros K T)[0 := ?col]"
  have len: "length ?W = K" by (simp add: zeros_def)
  have first: "simulate_W T K cutoff maxloops src
      = simulate_W_loop T K cutoff maxloops src ?W 1 0 (Suc 0)"
    unfolding simulate_W_def using assms test_correlation_first_of_many [OF assms(3), of T ?col cutoff]
    by (subst simulate_W_loop.simps) (simp add: diffusion_def)
  have rest: "simulate_W_loop T K cutoff maxloops src ?W 1 0 (Suc 0)
      = Some (Inr (transpose_np T
          (map (\<lambda>j. if j < 1 then ?W ! j else diffusion_path T (src (Suc 0 + j - 1))) [0..<K])))"
    using assms(3) len by (intro simulate_W_loop_accepts_rest [OF assms(1,2)]) simp_all
  have same: "map (\<lambda>j. if j < 1 then ?W ! j else diffusion_path T (src (Suc 0 + j - 1))) [0..<K]
      = map (\<lambda>j. diffusion_path T (src j)) [0..<K]"
  proof (rule map_cong)
    fix j assume "j \<in> set [0..<K]"
    then show "(if j < 1 then ?W ! j else diffusion_path T (src (Suc 0 + j - 1)))
        = diffusion_path T (src j)"
      using assms(3) by (cases j) (simp_all add: zeros_def)
  qed simp
  show ?thesis
    by (simp only: first rest same)
qed

lemma simulate_W_loop_single_stuck:
  assumes "\<forall>n. diffusion T (src n) = Inr col"
    and "pearsonr col col = Some p" and "cutoff < p"
    and run: "simulate_W_loop T 1 cutoff maxloops src W 0 loops n = Some y"
    and "length W = 1"
  shows False
proof -
  let ?P = "\<lambda>(T' :: nat) (K :: nat) (c :: real) (m :: int) (s :: nat \<Rightarrow> diffusion_draws)
      (W :: matrix) (k :: nat) (l :: int) (n :: nat) (y :: error + matrix).
      \<not> (T' = T \<and> K = 1 \<and> c = cutoff \<and> s = src \<and> length W = 1 \<and> k = 0)"
  have "?P T 1 cutoff maxloops src W 0 loops n y"
  proof (rule simulate_W_loop.raw_induct [where P = ?P, OF _ run], goal_cases)
    case (1 f T' K c m s W k l n y)
    show ?case
    proof
      assume inv: "T' = T \<and> K = 1 \<and> c = cutoff \<and> s = src \<and> length W = 1 \<and> k = 0"
      then have W: "W[0 := col] = [col]"
        by (cases W) simp_all
      have "f T 1 cutoff m src [col] 0 (l + 1) (Suc n) = Some y"
        using 1(2) assms(1) test_correlation_single [OF assms(2,3)] inv
        by (simp add: W)
      from 1(1) [OF this] show False by simp
    qed
  qed
  with assms(5) show False by simp
qed

lemma simulate_W_single_diverges:
  assumes "\<forall>n. diffusion T (src n) = Inr col"
    and "pearsonr col col = Some p" and "cutoff < p"
  shows "simulate_W T 1 cutoff maxloops src = None"
proof (rule ccontr)
  assume "simulate_W T 1 cutoff maxloops src \<noteq> None"
  then obtain y where "simulate_W_loop T 1 cutoff maxloops src (zeros 1 T) 0 0 0 = Some y"
    by (auto simp: simulate_W_def)
  then show False
    by (rule simulate_W_loop_single_stuck [OF assms]) (simp add: zeros_def)
qed

lemma diffusion_two_steady:
  "diffusion 2 \<lparr>W0 = 1 / 2, V0 = 1 / 2, eta = 0, epsilon = (\<lambda>t. 0)\<rparr> = Inr [1 / 2, 1]"
  by (simp add: diffusion_def diffusion_path_def numeral_2_eq_2)

lemma pearsonr_half_one: "pearsonr [1 / 2, 1] [1 / 2, 1] = Some 1"
  by (rule pearsonr_self) (simp add: mean_def)

text \<open>
  Claim C1, on the code. With \<open>T = 2\<close>, \<open>K = 2\<close>, the default cutoff \<open>0.2\<close> and a random source
  whose every diffusion is \<open>[0.5, 1]\<close>, \<open>simulate_W\<close> returns a matrix whose two columns
  are equal, with Pearson correlation \<open>1\<close>, far above the cutoff: \<open>test_correlation\<close> loops
  over \<^verbatim>\<open>range(k-1, 0)\<close>, which is empty for every \<open>k \<ge> 1\<close>, so no column is ever compared
  with an earlier one.
\<close>

theorem simulate_W_keeps_correlated_columns:
  "simulate_W 2 2 (1 / 5) 100 (\<lambda>n. \<lparr>W0 = 1 / 2, V0 = 1 / 2, eta = 0, epsilon = (\<lambda>t. 0)\<rparr>)
     = Some (Inr [[1 / 2, 1 / 2], [1, 1]])
   \<and> pearsonr (column [[1 / 2, 1 / 2], [1, 1]] 0) (column [[1 / 2, 1 / 2], [1, 1]] 1) = Some 1
   \<and> (1 :: real) > 1 / 5 + 1 / 1000000"
proof -
  let ?src = "\<lambda>n :: nat. \<lparr>W0 = 1 / 2, V0 = 1 / 2, eta = 0, epsilon = (\<lambda>t :: nat. 0 :: real)\<rparr>"
  have path: "diffusion_path 2 (?src j) = [1 / 2, 1]" for j :: nat
    by (simp add: diffusion_path_def numeral_2_eq_2)
  have "simulate_W 2 2 (1 / 5) 100 ?src
      = Some (Inr (transpose_np 2 (map (\<lambda>j. diffusion_path 2 (?src j)) [0..<2])))"
    by (rule simulate_W_accepts_all) simp_all
  also have "transpose_np 2 (map (\<lambda>j. diffusion_path 2 (?src j)) [0..<2])
      = [[1 / 2, 1 / 2], [1, 1]]"
    unfolding path by (simp add: transpose_np_def upt_rec numeral_2_eq_2)
  finally have run: "simulate_W 2 2 (1 / 5) 100 ?src = Some (Inr [[1 / 2, 1 / 2], [1, 1]])" .
  have cols: "pearsonr (column [[1 / 2, 1 / 2], [1, 1]] 0) (column [[1 / 2, 1 / 2], [1, 1]] 1)
      = Some 1"
    by (simp add: column_def pearsonr_half_one)
  show ?thesis
    using run cols by simp
qed

text \<open>
  Claim C3, on the code. With \<open>T = 2\<close>, \<open>K = 1\<close>, the defaults \<open>cutoff = 0.2\<close> and
  \<open>maxloops = 100\<close> and a random source whose every diffusion is \<open>[0.5, 1]\<close>, the only column
  is compared with itself (\<^verbatim>\<open>range(-1, 0)\<close> holds \<open>-1\<close>, and \<^verbatim>\<open>W[-1]\<close> is \<^verbatim>\<open>W[0]\<close>) and
  rejected each time. A rejection leads from any count \<open>loops\<close>, also one beyond
  \<open>maxloops\<close>, to the same state with \<open>loops + 1\<close>: \<^verbatim>\<open>continue\<close> skips the test of
  \<open>loops > maxloops\<close>, no restart happens, and the call never returns.
\<close>

theorem simulate_W_rejections_never_restart:
  "simulate_W 2 1 (1 / 5) 100 (\<lambda>n. \<lparr>W0 = 1 / 2, V0 = 1 / 2, eta = 0, epsilon = (\<lambda>t. 0)\<rparr>) = None
   \<and> (\<forall>loops n.
        simulate_W_loop 2 1 (1 / 5) 100
           (\<lambda>n. \<lparr>W0 = 1 / 2, V0 = 1 / 2, eta = 0, epsilon = (\<lambda>t. 0)\<rparr>) [[1 / 2, 1]] 0 loops n
        = simulate_W_loop 2 1 (1 / 5) 100
           (\<lambda>n. \<lparr>W0 = 1 / 2, V0 = 1 / 2, eta = 0, epsilon = (\<lambda>t. 0)\<rparr>) [[1 / 2, 1]] 0
           (loops + 1) (Suc n))"
proof -
  let ?src = "\<lambda>n :: nat. \<lparr>W0 = 1 / 2, V0 = 1 / 2, eta = 0, epsilon = (\<lambda>t :: nat. 0 :: real)\<rparr>"
  have draws: "\<forall>n. diffusion 2 (?src n) = Inr [1 / 2, 1]"
    by (simp add: diffusion_two_steady)
  have high: "(1 / 5 :: real) < 1" by simp
  have never: "simulate_W 2 1 (1 / 5) 100 ?src = None"
    using draws pearsonr_half_one high by (rule simulate_W_single_diverges)
  have rejected: "test_correlation [[1 / 2, 1]] (int 0) (1 / 5) = Inr True"
    using pearsonr_half_one high by (rule test_correlation_single)
  have again: "simulate_W_loop 2 1 (1 / 5) 100 ?src [[1 / 2, 1]] 0 loops n
      = simulate_W_loop 2 1 (1 / 5) 100 ?src [[1 / 2, 1]] 0 (loops + 1) (Suc n)" for loops n
    using rejected
    by (subst simulate_W_loop.simps) (simp add: diffusion_two_steady)
  show ?thesis
    using never again by blast
qed

section \<open>Shapes\<close>

lemma has_shape_zeros: "has_shape rows cols (zeros rows cols)"
  by (simp add: has_shape_def zeros_def)

lemma has_shape_transpose_np: "has_shape T (length W) (transpose_np T W)"
  by (auto simp: has_shape_def transpose_np_def)

lemma has_shape_dot: "has_shape (length W) G (dot G W H)"
  by (auto simp: has_shape_def dot_def)

lemma nth_update_all:
  assumes "\<forall>i<length xs. P i (xs ! i)" and "P c x"
  shows "\<forall>i<length xs. P i (xs[c := x] ! i)"
proof (intro allI impI)
  fix i assume "i < length xs"
  then show "P i (xs[c := x] ! i)"
    using assms by (cases "i = c") simp_all
qed

lemma has_shape_update:
  "has_shape rows cols M \<Longrightarrow> length row = cols \<Longrightarrow> has_shape rows cols (M[k := row])"
  using set_update_subset_insert [of M k row] by (auto simp: has_shape_def)

lemma create_groups_in_range:
  assumes "0 < K" and "is_permutation G (genes1 d)" and "is_permutation G (genes2 d)"
  shows "\<exists>groups. create_groups K G d = Inr groups \<and> length groups = K
           \<and> (\<forall>grp \<in> set groups. \<forall>i \<in> set grp. i < G)"
proof -
  obtain groups where groups: "create_groups K G d = Inr groups" "length groups = K"
    "mset (concat groups) = mset (genes1 d) + mset (genes2 d)"
    using create_groups_mset [OF assms(1)] by blast
  have "set_mset (mset (concat groups)) = set_mset (mset [0..<G] + mset [0..<G])"
    using groups(3) assms(2,3) by (simp add: is_permutation_def)
  then have members: "set (concat groups) = {0..<G}"
    by simp
  have "\<forall>grp \<in> set groups. \<forall>i \<in> set grp. i < G"
  proof (intro ballI)
    fix grp i assume "grp \<in> set groups" "i \<in> set grp"
    then have "i \<in> set (concat groups)" by auto
    with members show "i < G" by simp
  qed
  with groups(1,2) show ?thesis by blast
qed

lemma simulate_H_row_ok:
  assumes "0 < a" and "0 < b"
  shows "\<forall>g \<in> set gs. g < length h \<Longrightarrow>
     \<exists>h' n'. simulate_H_row gs a b bt n h = Inr (h', n') \<and> length h' = length h"
proof (induction gs arbitrary: n h)
  case Nil
  then show ?case by simp
next
  case (Cons g gs)
  let ?h = "h[g := h ! g + bt n]"
  have "\<forall>g \<in> set gs. g < length ?h" using Cons.prems by simp
  from Cons.IH [OF this, of "Suc n"]
  obtain h' n' where "simulate_H_row gs a b bt (Suc n) ?h = Inr (h', n')" "length h' = length h"
    by auto
  then show ?case
    using Cons.prems assms by (simp add: beta_rvs_def)
qed

lemma simulate_H_loop_ok:
  assumes "0 < a" and "0 < b" and "\<forall>grp \<in> set groups. \<forall>g \<in> set grp. g < G"
  shows "\<forall>k \<in> set ks. k < length groups \<and> k < rows \<Longrightarrow> has_shape rows G H \<Longrightarrow>
     \<exists>H'. simulate_H_loop ks groups a b bt n H = Inr H' \<and> has_shape rows G H'"
proof (induction ks arbitrary: n H)
  case Nil
  then show ?case by simp
next
  case (Cons k ks)
  then have k: "k < length groups" "k < length H"
    by (simp_all add: has_shape_def)
  have grp: "py_index groups (int k) = Inr (groups ! k)"
    using k(1) by (rule py_index_nat)
  have row: "length (H ! k) = G"
    using Cons.prems(2) k(2) by (simp add: has_shape_def)
  have "\<forall>g \<in> set (groups ! k). g < length (H ! k)"
    using assms(3) nth_mem [OF k(1)] row by auto
  from simulate_H_row_ok [OF assms(1,2) this, of bt n]
  obtain h n' where h: "simulate_H_row (groups ! k) a b bt n (H ! k) = Inr (h, n')"
    "length h = G"
    using row by auto
  have "has_shape rows G (H[k := h])"
    using Cons.prems(2) h(2) by (rule has_shape_update)
  moreover have "\<forall>k \<in> set ks. k < length groups \<and> k < rows"
    using Cons.prems(1) by simp
  ultimately obtain H' where "simulate_H_loop ks groups a b bt n' (H[k := h]) = Inr H'"
    "has_shape rows G H'"
    using Cons.IH by blast
  then show ?case
    by (simp add: grp h(1))
qed

lemma simulate_H_ok:
  assumes "0 < a" and "0 < b" and "length groups = K"
    and "\<forall>grp \<in> set groups. \<forall>g \<in> set grp. g < G"
  shows "\<exists>H. simulate_H K G groups a b bt = Inr H \<and> has_shape K G H"
  unfolding simulate_H_def
  using assms(3) by (intro simulate_H_loop_ok [OF assms(1,2,4)] has_shape_zeros) simp

lemma simulate_branch_ok:
  assumes "0 < T" and "2 \<le> K"
    and "is_permutation G (genes1 (grouping d))" and "is_permutation G (genes2 (grouping d))"
  shows "\<exists>W H Mu. simulate_branch G T K d = Some (Inr (W, H, Mu))
           \<and> has_shape T K W \<and> has_shape T G Mu"
proof -
  let ?W = "transpose_np T (map (\<lambda>j. diffusion_path T (walks d j)) [0..<K])"
  have W: "simulate_W T K 0.2 100 (walks d) = Some (Inr ?W)"
    using assms(1,2) by (intro simulate_W_accepts_all) simp_all
  have shapeW: "has_shape T K ?W"
    using has_shape_transpose_np [of T "map (\<lambda>j. diffusion_path T (walks d j)) [0..<K]"]
    by simp
  from assms(2) have "0 < K" by simp
  from create_groups_in_range [OF this assms(3,4)]
  obtain groups where groups: "create_groups K G (grouping d) = Inr groups" "length groups = K"
    "\<forall>grp \<in> set groups. \<forall>i \<in> set grp. i < G"
    by blast
  obtain H where H: "simulate_H K G groups 2 2 (betas d) = Inr H"
    using simulate_H_ok [OF _ _ groups(2,3), of 2 2 "betas d"] by auto
  have "simulate_branch G T K d = Some (Inr (?W, H, dot G ?W H))"
    unfolding simulate_branch_def W groups(1) by (simp add: H)
  moreover have "has_shape T G (dot G ?W H)"
    using has_shape_dot [of ?W G H] shapeW by (simp add: has_shape_def)
  ultimately show ?thesis
    using shapeW by blast
qed

lemma simulate_branches_ok:
  "\<forall>i \<in> set is. i < B \<and> 0 < Ts ! i \<and> 2 \<le> Ks ! i
      \<and> is_permutation G (genes1 (grouping (src i))) \<and> is_permutation G (genes2 (grouping (src i)))
     \<Longrightarrow> length Ws = B \<Longrightarrow> length Ms = B
     \<Longrightarrow> \<forall>i<B. has_shape (Ts ! i) (Ks ! i) (Ws ! i) \<and> has_shape (Ts ! i) G (Ms ! i)
     \<Longrightarrow> \<exists>Ws' Ms'. simulate_branches G Ts Ks src is Ws Ms = Some (Inr (Ws', Ms'))
           \<and> length Ws' = B \<and> length Ms' = B
           \<and> (\<forall>i<B. has_shape (Ts ! i) (Ks ! i) (Ws' ! i) \<and> has_shape (Ts ! i) G (Ms' ! i))"
proof (induction "is" arbitrary: Ws Ms)
  case Nil
  then show ?case by simp
next
  case (Cons i "is")
  then have i: "i < B" "0 < Ts ! i" "2 \<le> Ks ! i"
    "is_permutation G (genes1 (grouping (src i)))" "is_permutation G (genes2 (grouping (src i)))"
    by simp_all
  from simulate_branch_ok [OF i(2-5)]
  obtain W H Mu where br: "simulate_branch G (Ts ! i) (Ks ! i) (src i) = Some (Inr (W, H, Mu))"
    "has_shape (Ts ! i) (Ks ! i) W" "has_shape (Ts ! i) G Mu"
    by blast
  have shapes: "\<forall>j<B. has_shape (Ts ! j) (Ks ! j) (Ws[i := W] ! j)
      \<and> has_shape (Ts ! j) G (Ms[i := Mu] ! j)"
  proof (intro allI impI)
    fix j assume j: "j < B"
    show "has_shape (Ts ! j) (Ks ! j) (Ws[i := W] ! j) \<and> has_shape (Ts ! j) G (Ms[i := Mu] ! j)"
    proof (cases "j = i")
      case True
      then show ?thesis
        using br(2,3) i(1) Cons.prems(2,3) by simp
    next
      case False
      then show ?thesis
        using Cons.prems(4) j by simp
    qed
  qed
  have rest: "\<forall>i \<in> set is. i < B \<and> 0 < Ts ! i \<and> 2 \<le> Ks ! i
      \<and> is_permutation G (genes1 (grouping (src i))) \<and> is_permutation G (genes2 (grouping (src i)))"
    using Cons.prems(1) by simp
  have lens: "length (Ws[i := W]) = B" "length (Ms[i := Mu]) = B"
    using Cons.prems(2,3) by simp_all
  from Cons.IH [OF rest lens shapes] show ?case
    by (simp add: br(1))
qed

section \<open>Continuity across edges\<close>

lemma collect_map_Inr:
  "\<forall>x \<in> set xs. f x = Inr (g x) \<Longrightarrow> collect (map f xs) = Inr (map g xs)"
  by (induction xs) simp_all

lemma map2_minus_back:
  fixes xs ys :: "real list"
  shows "length xs = length ys \<Longrightarrow> map2 (-) xs (map2 (-) xs ys) = ys"
  by (induction xs ys rule: list_induct2) simp_all

lemma bifurc_adjust_shift:
  assumes "has_shape T G Mu_bif" and "0 < T" and "Mu \<noteq> []" and "length (last Mu) = G"
  shows "\<exists>M. bifurc_adjust Mu_bif Mu = Inr M \<and> has_shape T G M \<and> M \<noteq> [] \<and> hd M = last Mu"
proof -
  let ?dif = "map2 (-) (hd Mu_bif) (last Mu)"
  let ?M = "map (\<lambda>row. map2 (-) row ?dif) Mu_bif"
  have ne: "Mu_bif \<noteq> []" and rows: "\<forall>row \<in> set Mu_bif. length row = G"
    using assms(1,2) by (auto simp: has_shape_def)
  then have first: "py_index Mu_bif 0 = Inr (hd Mu_bif)" and hd_len: "length (hd Mu_bif) = G"
    by (simp_all add: py_index_def hd_conv_nth)
  have lst: "py_index Mu (- 1) = Inr (last Mu)"
    using assms(3) by (rule py_index_last)
  have dif: "broadcast_sub (hd Mu_bif) (last Mu) = Inr ?dif" and dif_len: "length ?dif = G"
    using hd_len assms(4) by (simp_all add: broadcast_sub_def)
  have "\<forall>row \<in> set Mu_bif. broadcast_sub row ?dif = Inr (map2 (-) row ?dif)"
    using rows dif_len by (simp add: broadcast_sub_def)
  then have "collect (map (\<lambda>row. broadcast_sub row ?dif) Mu_bif) = Inr ?M"
    by (rule collect_map_Inr)
  then have run: "bifurc_adjust Mu_bif Mu = Inr ?M"
    by (simp add: bifurc_adjust_def first lst dif)
  have shape: "has_shape T G ?M"
    using assms(1) dif_len by (auto simp: has_shape_def)
  have "hd ?M = map2 (-) (hd Mu_bif) ?dif"
    using ne by (simp add: hd_map)
  also have "\<dots> = last Mu"
    using hd_len assms(4) by (intro map2_minus_back) simp
  finally have "hd ?M = last Mu" .
  with run shape ne show ?thesis by auto
qed

lemma apply_topology_ok:
  shows "\<forall>b \<in> set bs. fst b < length Ms \<and> snd b < length Ms
     \<Longrightarrow> \<forall>i<length Ms. has_shape (Ts ! i) G (Ms ! i) \<and> 0 < Ts ! i
     \<Longrightarrow> \<exists>Ms'. apply_topology bs Ms = Inr Ms' \<and> length Ms' = length Ms
           \<and> (\<forall>i<length Ms. has_shape (Ts ! i) G (Ms' ! i))
           \<and> (\<forall>i<length Ms. i \<notin> snd ` set bs \<longrightarrow> Ms' ! i = Ms ! i)
           \<and> (topological bs \<longrightarrow> (\<forall>b \<in> set bs. hd (Ms' ! snd b) = last (Ms' ! fst b)))"
proof (induction bs arbitrary: Ms)
  case Nil
  then show ?case by simp
next
  case (Cons b bs)
  obtain p c where b: "b = (p, c)" by (cases b)
  have pc: "p < length Ms" "c < length Ms"
    using Cons.prems(1) by (simp_all add: b)
  have shape_c: "has_shape (Ts ! c) G (Ms ! c)" "0 < Ts ! c"
    and shape_p: "has_shape (Ts ! p) G (Ms ! p)" "0 < Ts ! p"
    using Cons.prems(2) pc by simp_all
  have p_ne: "Ms ! p \<noteq> []"
    using shape_p by (auto simp: has_shape_def)
  then have p_last: "length (last (Ms ! p)) = G"
    using shape_p(1) last_in_set [of "Ms ! p"] by (simp add: has_shape_def)
  from bifurc_adjust_shift [OF shape_c p_ne p_last]
  obtain M where M: "bifurc_adjust (Ms ! c) (Ms ! p) = Inr M" "has_shape (Ts ! c) G M"
    "hd M = last (Ms ! p)"
    by blast
  let ?Ms = "Ms[c := M]"
  have in_range: "\<forall>b \<in> set bs. fst b < length ?Ms \<and> snd b < length ?Ms"
    using Cons.prems(1) by simp
  have "\<forall>i<length Ms. has_shape (Ts ! i) G (?Ms ! i) \<and> 0 < Ts ! i"
    using Cons.prems(2) M(2) shape_c(2)
    by (intro nth_update_all [where P = "\<lambda>i M. has_shape (Ts ! i) G M \<and> 0 < Ts ! i"]) simp_all
  then have shapes: "\<forall>i<length ?Ms. has_shape (Ts ! i) G (?Ms ! i) \<and> 0 < Ts ! i"
    by simp
  from Cons.IH [OF in_range shapes]
  obtain Ms' where Ms': "apply_topology bs ?Ms = Inr Ms'" "length Ms' = length Ms"
    "\<forall>i<length Ms. has_shape (Ts ! i) G (Ms' ! i)"
    "\<forall>i<length Ms. i \<notin> snd ` set bs \<longrightarrow> Ms' ! i = ?Ms ! i"
    "topological bs \<longrightarrow> (\<forall>b \<in> set bs. hd (Ms' ! snd b) = last (Ms' ! fst b))"
    by auto
  have run: "apply_topology (b # bs) Ms = Inr Ms'"
    using pc by (simp add: b M(1) Ms'(1))
  have untouched: "\<forall>i<length Ms. i \<notin> snd ` set (b # bs) \<longrightarrow> Ms' ! i = Ms ! i"
    using Ms'(4) by (simp add: b)
  have continuous: "\<forall>e \<in> set (b # bs). hd (Ms' ! snd e) = last (Ms' ! fst e)"
    if top: "topological (b # bs)"
  proof -
    from top have sep: "p \<noteq> c" "p \<notin> snd ` set bs" "c \<notin> snd ` set bs" "topological bs"
      by (simp_all add: b)
    have "Ms' ! c = M"
      using Ms'(4) pc(2) sep(3) by simp
    moreover have "Ms' ! p = Ms ! p"
      using Ms'(4) pc(1) sep(1,2) by simp
    ultimately have "hd (Ms' ! snd b) = last (Ms' ! fst b)"
      using M(3) by (simp add: b)
    with Ms'(5) sep(4) show ?thesis by simp
  qed
  show ?case
    using run Ms'(2,3) untouched continuous by blast
qed

section \<open>Which errors the composer can raise\<close>

lemma diffusion_error: "diffusion T d = Inl e \<Longrightarrow> e = IndexError"
  by (simp add: diffusion_def split: if_splits)

lemma test_correlation_loop_error:
  "test_correlation_loop W k cutoff is = Inl e \<Longrightarrow> e = IndexError"
proof (induction "is")
  case Nil
  then show ?case by simp
next
  case (Cons i "is")
  then show ?case
    by (auto simp: py_index_error_iff split: sum.splits option.splits if_splits)
qed

lemma test_correlation_error: "test_correlation W k cutoff = Inl e \<Longrightarrow> e = IndexError"
  unfolding test_correlation_def by (rule test_correlation_loop_error)

lemma simulate_W_loop_no_exit:
  assumes run: "simulate_W_loop T K cutoff maxloops src W k loops n = Some y"
  shows "y \<noteq> Inl SystemExit"
proof -
  let ?P = "\<lambda>(T :: nat) (K :: nat) (c :: real) (m :: int) (s :: nat \<Rightarrow> diffusion_draws)
      (W :: matrix) (k :: nat) (l :: int) (n :: nat) (y :: error + matrix). y \<noteq> Inl SystemExit"
  show ?thesis
  proof (rule simulate_W_loop.raw_induct [where P = ?P, OF _ run], goal_cases)
    case (1 f T K c m s W k l n y)
    show ?case
    proof (cases "k < K")
      case False
      with 1(2) show ?thesis by auto
    next
      case True
      show ?thesis
      proof (cases "diffusion T (s n)")
        case (Inl e)
        with 1(2) True diffusion_error [OF Inl] show ?thesis by auto
      next
        case (Inr col)
        show ?thesis
        proof (cases "test_correlation (W[k := col]) (int k) c")
          case (Inl e)
          with 1(2) True Inr test_correlation_error [OF Inl] show ?thesis by auto
        next
          case corr: (Inr correlates)
          show ?thesis
          proof (cases correlates)
            case True
            with 1(2) \<open>k < K\<close> Inr corr
            have "f T K c m s (W[k := col]) k (l + 1) (Suc n) = Some y" by simp
            then show ?thesis by (rule 1(1))
          next
            case False
            show ?thesis
            proof (cases "0 > m")
              case True
              with 1(2) \<open>k < K\<close> Inr corr False show ?thesis by auto
            next
              case nonneg: False
              with 1(2) \<open>k < K\<close> Inr corr False
              have "f T K c m s (W[k := col]) (k + 1) 0 (Suc n) = Some y" by simp
              then show ?thesis by (rule 1(1))
            qed
          qed
        qed
      qed
    qed
  qed
qed

lemma random_partition_loop_error:
  "random_partition_loop k vs rnd j results = Inl e \<Longrightarrow> e = ValueError"
  by (induction vs arbitrary: j results) (auto simp: randrange_def split: if_splits)

lemma create_groups_error: "create_groups K G d = Inl e \<Longrightarrow> e = ValueError"
  by (auto simp: create_groups_def random_partition_def split: sum.splits
      dest: random_partition_loop_error)

lemma simulate_H_row_error:
  "simulate_H_row gs a b bt n h = Inl e \<Longrightarrow> e \<noteq> SystemExit"
  by (induction gs arbitrary: n h) (auto simp: beta_rvs_def split: if_splits)

lemma simulate_H_loop_error:
  "simulate_H_loop ks groups a b bt n H = Inl e \<Longrightarrow> e \<noteq> SystemExit"
proof (induction ks arbitrary: n H)
  case Nil
  then show ?case by simp
next
  case (Cons k ks)
  then show ?case
    by (auto simp: py_index_error_iff split: sum.splits prod.splits dest: simulate_H_row_error)
qed

lemma simulate_H_error: "simulate_H K G groups a b bt = Inl e \<Longrightarrow> e \<noteq> SystemExit"
  unfolding simulate_H_def by (rule simulate_H_loop_error)

lemma simulate_branch_no_exit: "simulate_branch G T K d \<noteq> Some (Inl SystemExit)"
proof
  assume exit: "simulate_branch G T K d = Some (Inl SystemExit)"
  show False
  proof (cases "simulate_W T K 0.2 100 (walks d)")
    case None
    with exit show False by (simp add: simulate_branch_def)
  next
    case (Some y)
    then have y: "y \<noteq> Inl SystemExit"
      unfolding simulate_W_def by (rule simulate_W_loop_no_exit)
    show False
    proof (cases y)
      case (Inl e)
      with exit Some y show False by (simp add: simulate_branch_def)
    next
      case (Inr W)
      with exit Some show False
        by (auto simp: simulate_branch_def split: sum.splits
            dest: create_groups_error simulate_H_error)
    qed
  qed
qed

lemma simulate_branches_no_exit:
  "simulate_branches G Ts Ks src is Ws Ms \<noteq> Some (Inl SystemExit)"
proof (induction "is" arbitrary: Ws Ms)
  case Nil
  then show ?case by simp
next
  case (Cons i "is")
  show ?case
    using Cons [of _ _] simulate_branch_no_exit [of G "Ts ! i" "Ks ! i" "src i"]
    by (auto split: option.splits sum.splits)
qed

lemma broadcast_sub_error: "broadcast_sub xs ys = Inl e \<Longrightarrow> e = ValueError"
  by (simp add: broadcast_sub_def split: if_splits)

lemma collect_error: "collect rs = Inl e \<Longrightarrow> Inl e \<in> set rs"
  by (induction rs) (auto split: sum.splits)

lemma collect_broadcast_error:
  assumes "collect (map (\<lambda>row. broadcast_sub row dif) M) = Inl e"
  shows "e = ValueError"
proof -
  from collect_error [OF assms] obtain row where "broadcast_sub row dif = Inl e"
    by auto
  then show ?thesis by (rule broadcast_sub_error)
qed

lemma bifurc_adjust_error: "bifurc_adjust Mu_bif Mu = Inl e \<Longrightarrow> e \<noteq> SystemExit"
  by (auto simp: bifurc_adjust_def py_index_error_iff split: sum.splits
      dest: broadcast_sub_error collect_broadcast_error)

lemma apply_topology_error: "apply_topology bs Ms = Inl e \<Longrightarrow> e \<noteq> SystemExit"
proof (induction bs arbitrary: Ms)
  case Nil
  then show ?case by simp
next
  case (Cons b bs)
  then show ?case
    by (auto split: if_splits sum.splits dest: bifurc_adjust_error)
qed

lemma simulate_branching_data_exit_iff:
  "simulate_branching_data G tr src = Some (Inl SystemExit)
     \<longleftrightarrow> length (time tr) \<noteq> branches tr \<or> length (modules tr) \<noteq> branches tr"
proof (cases "length (time tr) = branches tr \<and> length (modules tr) = branches tr")
  case False
  then show ?thesis by (auto simp: simulate_branching_data_def Let_def)
next
  case True
  have "simulate_branching_data G tr src \<noteq> Some (Inl SystemExit)"
    using True
      simulate_branches_no_exit [of G "time tr" "modules tr" src "[0..<branches tr]"
        "map (\<lambda>i. zeros (time tr ! i) (modules tr ! i)) [0..<branches tr]"
        "map (\<lambda>i. zeros (time tr ! i) G) [0..<branches tr]"]
    by (auto simp: simulate_branching_data_def Let_def split: option.splits sum.splits
        dest: apply_topology_error)
  with True show ?thesis by simp
qed

lemma simulate_branching_data_returns:
  assumes "length (time tr) = branches tr" and "length (modules tr) = branches tr"
    and "\<forall>T \<in> set (time tr). 2 \<le> T" and "\<forall>K \<in> set (modules tr). 2 \<le> K"
    and "\<forall>b \<in> set (topology tr). fst b < branches tr \<and> snd b < branches tr"
    and "\<forall>i<branches tr. is_permutation G (genes1 (grouping (src i)))
          \<and> is_permutation G (genes2 (grouping (src i)))"
  shows "\<exists>Ms Ws. simulate_branching_data G tr src = Some (Inr (Ms, Ws))
           \<and> length Ms = branches tr \<and> length Ws = branches tr
           \<and> (\<forall>i<branches tr. has_shape (time tr ! i) G (Ms ! i)
                 \<and> has_shape (time tr ! i) (modules tr ! i) (Ws ! i))"
proof -
  let ?B = "branches tr" and ?Ts = "time tr" and ?Ks = "modules tr"
  let ?Ws = "map (\<lambda>i. zeros (?Ts ! i) (?Ks ! i)) [0..<?B]"
  let ?Ms = "map (\<lambda>i. zeros (?Ts ! i) G) [0..<?B]"
  have T: "2 \<le> ?Ts ! i" and K: "2 \<le> ?Ks ! i" if "i < ?B" for i
    using that assms(1-4) by simp_all
  have each: "\<forall>i \<in> set [0..<?B]. i < ?B \<and> 0 < ?Ts ! i \<and> 2 \<le> ?Ks ! i
      \<and> is_permutation G (genes1 (grouping (src i))) \<and> is_permutation G (genes2 (grouping (src i)))"
  proof
    fix i assume "i \<in> set [0..<?B]"
    then have i: "i < ?B" by simp
    from T [OF i] have "0 < ?Ts ! i" by simp
    with i K [OF i] assms(6) show "i < ?B \<and> 0 < ?Ts ! i \<and> 2 \<le> ?Ks ! i
      \<and> is_permutation G (genes1 (grouping (src i))) \<and> is_permutation G (genes2 (grouping (src i)))"
      by simp
  qed
  have init: "\<forall>i<?B. has_shape (?Ts ! i) (?Ks ! i) (?Ws ! i) \<and> has_shape (?Ts ! i) G (?Ms ! i)"
    by (simp add: has_shape_zeros)
  have "length ?Ws = ?B" "length ?Ms = ?B" by simp_all
  from simulate_branches_ok [OF each this init]
  obtain Ws' Ms' where br: "simulate_branches G ?Ts ?Ks src [0..<?B] ?Ws ?Ms = Some (Inr (Ws', Ms'))"
    "length Ws' = ?B" "length Ms' = ?B"
    "\<forall>i<?B. has_shape (?Ts ! i) (?Ks ! i) (Ws' ! i) \<and> has_shape (?Ts ! i) G (Ms' ! i)"
    by blast
  have in_range: "\<forall>b \<in> set (topology tr). fst b < length Ms' \<and> snd b < length Ms'"
    using assms(5) br(3) by simp
  have shapes: "\<forall>i<length Ms'. has_shape (?Ts ! i) G (Ms' ! i) \<and> 0 < ?Ts ! i"
  proof (intro allI impI)
    fix i assume "i < length Ms'"
    then have i: "i < ?B" using br(3) by simp
    from T [OF i] have "0 < ?Ts ! i" by simp
    with br(4) i show "has_shape (?Ts ! i) G (Ms' ! i) \<and> 0 < ?Ts ! i" by simp
  qed
  from apply_topology_ok [OF in_range shapes]
  obtain Ms'' where top: "apply_topology (topology tr) Ms' = Inr Ms''" "length Ms'' = length Ms'"
    "\<forall>i<length Ms'. has_shape (?Ts ! i) G (Ms'' ! i)"
    by blast
  have "simulate_branching_data G tr src = Some (Inr (Ms'', Ws'))"
    using assms(1,2) by (simp add: simulate_branching_data_def Let_def br(1) top(1))
  then show ?thesis
    using br(2-4) top(2,3) by simp
qed

text \<open>
  Claim C7, amended. \<open>simulate_branching_data\<close> aborts with \<^verbatim>\<open>sys.exit\<close> if and only if
  \<^verbatim>\<open>len(tree.time)\<close> or \<^verbatim>\<open>len(tree.modules)\<close> differs from \<^verbatim>\<open>tree.branches\<close>. When both
  lengths equal the branch count, every branch has at least two pseudotime steps and at
  least two modules, and every edge of the topology names two branches of the tree, it
  simulates every branch and returns one \<open>M\<close> (of shape \<open>T\<^sub>i \<times> G\<close>) and one \<open>W\<close> (of shape
  \<open>T\<^sub>i \<times> K\<^sub>i\<close>) per branch, whatever the random source yields.
\<close>

theorem simulate_branching_data_validation:
  "(simulate_branching_data G tr src = Some (Inl SystemExit)
      \<longleftrightarrow> length (time tr) \<noteq> branches tr \<or> length (modules tr) \<noteq> branches tr)
   \<and> (length (time tr) = branches tr \<and> length (modules tr) = branches tr
       \<and> (\<forall>T \<in> set (time tr). 2 \<le> T) \<and> (\<forall>K \<in> set (modules tr). 2 \<le> K)
       \<and> (\<forall>b \<in> set (topology tr). fst b < branches tr \<and> snd b < branches tr)
       \<and> (\<forall>i<branches tr. is_permutation G (genes1 (grouping (src i)))
             \<and> is_permutation G (genes2 (grouping (src i))))
      \<longrightarrow> (\<exists>Ms Ws. simulate_branching_data G tr src = Some (Inr (Ms, Ws))
             \<and> length Ms = branches tr \<and> length Ws = branches tr
             \<and> (\<forall>i<branches tr. has_shape (time tr ! i) G (Ms ! i)
                   \<and> has_shape (time tr ! i) (modules tr ! i) (Ws ! i))))"
  using simulate_branching_data_exit_iff [of G tr src]
    simulate_branching_data_returns [of tr G src]
  by blast

section \<open>The composer on the sample inputs\<close>

lemma upt_three: "[0..<3] = [0, Suc 0, 2]"
  by (simp add: numeral_3_eq_3)

lemma upt_two: "[0..<2] = [0, Suc 0]"
  by (simp add: numeral_2_eq_2)

lemma update_third: "(x # y # z # zs)[2 := v] = x # y # v # zs"
  by (simp add: numeral_2_eq_2)

lemma steady_path: "diffusion_path 2 steady_walk = [1 / 2, 1]"
  by (simp add: diffusion_path_def steady_walk_def numeral_2_eq_2)

lemma steady_W:
  "simulate_W 2 2 cutoff 100 (walks steady_draws) = Some (Inr [[1 / 2, 1 / 2], [1, 1]])"
proof -
  have "simulate_W 2 2 cutoff 100 (walks steady_draws)
      = Some (Inr (transpose_np 2 (map (\<lambda>j. diffusion_path 2 (walks steady_draws j)) [0..<2])))"
    by (rule simulate_W_accepts_all) simp_all
  also have "map (\<lambda>j. diffusion_path 2 (walks steady_draws j)) [0..<2] = [[1 / 2, 1], [1 / 2, 1]]"
    unfolding steady_draws_def upt_two by (simp add: steady_path)
  also have "transpose_np 2 [[1 / 2, 1], [1 / 2, 1]] = [[1 / 2, 1 / 2], [1, 1]]"
    by code_simp
  finally show ?thesis .
qed

lemma steady_groups: "create_groups 2 1 (grouping steady_draws) = Inr [[0, 0], []]"
  by code_simp

lemma steady_H: "simulate_H 2 1 [[0, 0], []] 2 2 (betas steady_draws) = Inr [[1], [0]]"
  by code_simp

lemma steady_dot: "dot 1 [[1 / 2, 1 / 2], [1, 1]] [[1], [0]] = [[1 / 2], [1]]"
  by code_simp

lemma steady_branch:
  "simulate_branch 1 2 2 steady_draws
     = Some (Inr ([[1 / 2, 1 / 2], [1, 1]], [[1], [0]], [[1 / 2], [1]]))"
  unfolding simulate_branch_def steady_W steady_groups option.case sum.case steady_H steady_dot
  by (rule refl)

lemma shift_first: "bifurc_adjust [[1 / 2], [1]] [[1 / 2], [1]] = Inr [[1], [3 / 2]]"
  by code_simp

lemma shift_second: "bifurc_adjust [[1 / 2], [1]] [[1], [3 / 2]] = Inr [[3 / 2], [2]]"
  by code_simp

lemma steady_in_order:
  "simulate_branching_data 1 (three_branches [(0, 1), (1, 2)]) (\<lambda>i. steady_draws)
     = Some (Inr ([[[1 / 2], [1]], [[1], [3 / 2]], [[3 / 2], [2]]],
                  [[[1 / 2, 1 / 2], [1, 1]], [[1 / 2, 1 / 2], [1, 1]], [[1 / 2, 1 / 2], [1, 1]]]))"
  using steady_branch
  by (simp add: simulate_branching_data_def three_branches_def Let_def upt_three
      shift_first shift_second update_third)

lemma steady_out_of_order:
  "simulate_branching_data 1 (three_branches [(1, 2), (0, 1)]) (\<lambda>i. steady_draws)
     = Some (Inr ([[[1 / 2], [1]], [[1], [3 / 2]], [[1], [3 / 2]]],
                  [[[1 / 2, 1 / 2], [1, 1]], [[1 / 2, 1 / 2], [1, 1]], [[1 / 2, 1 / 2], [1, 1]]]))"
  using steady_branch
  by (simp add: simulate_branching_data_def three_branches_def Let_def upt_three
      shift_first shift_second update_third)

theorem simulate_branching_data_validation_witness:
  "\<exists>Ms Ws. simulate_branching_data 1 (three_branches [(0, 1), (1, 2)]) (\<lambda>i. steady_draws)
       = Some (Inr (Ms, Ws)) \<and> length Ms = 3 \<and> length Ws = 3"
proof -
  let ?tr = "three_branches [(0, 1), (1, 2)]"
  have "length (time ?tr) = branches ?tr \<and> length (modules ?tr) = branches ?tr
      \<and> (\<forall>T \<in> set (time ?tr). 2 \<le> T) \<and> (\<forall>K \<in> set (modules ?tr). 2 \<le> K)
      \<and> (\<forall>b \<in> set (topology ?tr). fst b < branches ?tr \<and> snd b < branches ?tr)
      \<and> (\<forall>i<branches ?tr. is_permutation 1 (genes1 (grouping steady_draws))
            \<and> is_permutation 1 (genes2 (grouping steady_draws)))"
    by (simp add: three_branches_def steady_draws_def is_permutation_def)
  with simulate_branching_data_validation [of 1 ?tr "\<lambda>i. steady_draws"]
  obtain Ms Ws where "simulate_branching_data 1 ?tr (\<lambda>i. steady_draws) = Some (Inr (Ms, Ws))"
    "length Ms = branches ?tr" "length Ws = branches ?tr"
    by blast
  then show ?thesis
    by (simp add: three_branches_def)
qed

theorem simulate_branching_data_dangling_edge_counterexample:
  "length (time \<lparr>branches = 1, time = [2], modules = [2], topology = [(0, 1)],
        populate_timezone = [], branch_times = [], means = []\<rparr>) = 1
   \<and> length (modules \<lparr>branches = 1, time = [2], modules = [2], topology = [(0, 1)],
        populate_timezone = [], branch_times = [], means = []\<rparr>) = 1
   \<and> simulate_branching_data 1
        \<lparr>branches = 1, time = [2], modules = [2], topology = [(0, 1)],
         populate_timezone = [], branch_times = [], means = []\<rparr> (\<lambda>i. steady_draws)
       = Some (Inl IndexError)"
  using steady_branch by (simp add: simulate_branching_data_def Let_def)

section \<open>Continuity after the composer returns\<close>

lemma bifurc_adjust_returns:
  assumes "bifurc_adjust Mu_bif Mu = Inr M"
    and "has_shape (length Mu_bif) G Mu_bif" and "has_shape (length Mu) G Mu"
  shows "M \<noteq> [] \<and> Mu \<noteq> [] \<and> hd M = last Mu \<and> has_shape (length M) G M"
proof -
  have bif: "Mu_bif \<noteq> []"
  proof
    assume "Mu_bif = []"
    then have "bifurc_adjust Mu_bif Mu = Inl IndexError"
      by (simp add: bifurc_adjust_def py_index_def)
    with assms(1) show False by simp
  qed
  have mu: "Mu \<noteq> []"
  proof
    assume "Mu = []"
    then have "bifurc_adjust Mu_bif Mu = Inl IndexError"
      by (simp add: bifurc_adjust_def py_index_def split: sum.splits)
    with assms(1) show False by simp
  qed
  then have "length (last Mu) = G"
    using assms(3) last_in_set [of Mu] by (simp add: has_shape_def)
  moreover from bif have "0 < length Mu_bif" by simp
  ultimately obtain M' where M': "bifurc_adjust Mu_bif Mu = Inr M'"
    "has_shape (length Mu_bif) G M'" "M' \<noteq> []" "hd M' = last Mu"
    using bifurc_adjust_shift [OF assms(2) _ mu] by blast
  with assms(1) have "M = M'" by simp
  with M' mu show ?thesis by (simp add: has_shape_def)
qed

lemma apply_topology_frame:
  "apply_topology bs Ms = Inr Ms'
     \<Longrightarrow> length Ms' = length Ms \<and> (\<forall>i. i \<notin> snd ` set bs \<longrightarrow> Ms' ! i = Ms ! i)"
proof (induction bs arbitrary: Ms)
  case Nil
  then show ?case by simp
next
  case (Cons b bs)
  from Cons.prems obtain M where M: "bifurc_adjust (Ms ! snd b) (Ms ! fst b) = Inr M"
    "apply_topology bs (Ms[snd b := M]) = Inr Ms'"
    by (auto split: if_splits sum.splits)
  from Cons.IH [OF M(2)] show ?case by auto
qed

lemma apply_topology_continuous:
  "apply_topology bs Ms = Inr Ms'
     \<Longrightarrow> \<forall>i<length Ms. has_shape (length (Ms ! i)) G (Ms ! i)
     \<Longrightarrow> topological bs
     \<Longrightarrow> \<forall>b \<in> set bs. Ms' ! snd b \<noteq> [] \<and> Ms' ! fst b \<noteq> []
           \<and> hd (Ms' ! snd b) = last (Ms' ! fst b)"
proof (induction bs arbitrary: Ms)
  case Nil
  then show ?case by simp
next
  case (Cons b bs)
  obtain p c where b: "b = (p, c)" by (cases b)
  from Cons.prems(1) have pc: "c < length Ms" "p < length Ms"
    by (auto simp: b split: if_splits)
  with Cons.prems(1) obtain M where M: "bifurc_adjust (Ms ! c) (Ms ! p) = Inr M"
    "apply_topology bs (Ms[c := M]) = Inr Ms'"
    by (auto simp: b split: sum.splits)
  from Cons.prems(2) pc
  have "has_shape (length (Ms ! c)) G (Ms ! c)" "has_shape (length (Ms ! p)) G (Ms ! p)"
    by simp_all
  from bifurc_adjust_returns [OF M(1) this]
  have adj: "M \<noteq> []" "Ms ! p \<noteq> []" "hd M = last (Ms ! p)" "has_shape (length M) G M"
    by simp_all
  from Cons.prems(3) have sep: "p \<noteq> c" "p \<notin> snd ` set bs" "c \<notin> snd ` set bs" "topological bs"
    by (simp_all add: b)
  have "\<forall>i<length Ms. has_shape (length (Ms[c := M] ! i)) G (Ms[c := M] ! i)"
    using Cons.prems(2) adj(4)
    by (intro nth_update_all [where P = "\<lambda>i M. has_shape (length M) G M"]) simp_all
  then have shapes: "\<forall>i<length (Ms[c := M]). has_shape (length (Ms[c := M] ! i)) G (Ms[c := M] ! i)"
    by simp
  from Cons.IH [OF M(2) shapes sep(4)]
  have rest: "\<forall>b \<in> set bs. Ms' ! snd b \<noteq> [] \<and> Ms' ! fst b \<noteq> []
      \<and> hd (Ms' ! snd b) = last (Ms' ! fst b)" .
  from apply_topology_frame [OF M(2)] sep(2,3)
  have "Ms' ! c = Ms[c := M] ! c" "Ms' ! p = Ms[c := M] ! p"
    by simp_all
  then have "Ms' ! c = M" "Ms' ! p = Ms ! p"
    using pc sep(1) by simp_all
  with adj have "Ms' ! snd b \<noteq> [] \<and> Ms' ! fst b \<noteq> [] \<and> hd (Ms' ! snd b) = last (Ms' ! fst b)"
    by (simp add: b)
  with rest show ?case by simp
qed

lemma simulate_branch_returns_wide:
  assumes "simulate_branch G T K d = Some (Inr (W, H, Mu))"
  shows "has_shape (length Mu) G Mu"
proof -
  from assms have "Mu = dot G W H"
    by (auto simp: simulate_branch_def split: option.splits sum.splits)
  then show ?thesis
    using has_shape_dot [of W G H] by (simp add: has_shape_def)
qed

lemma simulate_branches_returns_wide:
  "simulate_branches G Ts Ks src is Ws Ms = Some (Inr (Ws', Ms'))
     \<Longrightarrow> \<forall>i<length Ms. has_shape (length (Ms ! i)) G (Ms ! i)
     \<Longrightarrow> length Ms' = length Ms \<and> (\<forall>i<length Ms. has_shape (length (Ms' ! i)) G (Ms' ! i))"
proof (induction "is" arbitrary: Ws Ms)
  case Nil
  then show ?case by simp
next
  case (Cons i "is")
  from Cons.prems(1) obtain W H Mu
    where br: "simulate_branch G (Ts ! i) (Ks ! i) (src i) = Some (Inr (W, H, Mu))"
      "simulate_branches G Ts Ks src is (Ws[i := W]) (Ms[i := Mu]) = Some (Inr (Ws', Ms'))"
    by (auto split: option.splits sum.splits)
  have "\<forall>j<length Ms. has_shape (length (Ms[i := Mu] ! j)) G (Ms[i := Mu] ! j)"
    using Cons.prems(2) simulate_branch_returns_wide [OF br(1)]
    by (intro nth_update_all [where P = "\<lambda>i M. has_shape (length M) G M"]) simp_all
  then have "\<forall>j<length (Ms[i := Mu]). has_shape (length (Ms[i := Mu] ! j)) G (Ms[i := Mu] ! j)"
    by simp
  from Cons.IH [OF br(2) this] show ?case by simp
qed

text \<open>
  Claim C2, amended. After \<open>simulate_branching_data\<close> returns, if the topology list presents
  the edges in topological order (no edge is a loop, and neither end of an edge is the
  child of a later edge), then for every edge the child's first mean-expression row equals
  the parent's last row, for every gene. The edges are applied in the order of the list, so
  for other orders this can fail.
\<close>

theorem simulate_branching_data_continuity:
  assumes "simulate_branching_data G tr src = Some (Inr (Ms, Ws))"
    and "topological (topology tr)"
  shows "\<forall>b \<in> set (topology tr). Ms ! snd b \<noteq> [] \<and> Ms ! fst b \<noteq> []
           \<and> hd (Ms ! snd b) = last (Ms ! fst b)"
proof -
  let ?B = "branches tr"
  let ?Ws = "map (\<lambda>i. zeros (time tr ! i) (modules tr ! i)) [0..<?B]"
  let ?Ms = "map (\<lambda>i. zeros (time tr ! i) G) [0..<?B]"
  from assms(1) obtain Ws' Ms'
    where br: "simulate_branches G (time tr) (modules tr) src [0..<?B] ?Ws ?Ms
        = Some (Inr (Ws', Ms'))"
      and top: "apply_topology (topology tr) Ms' = Inr Ms"
    by (auto simp: simulate_branching_data_def Let_def split: if_splits option.splits sum.splits)
  have "\<forall>i<length ?Ms. has_shape (length (?Ms ! i)) G (?Ms ! i)"
    using has_shape_zeros by (simp add: zeros_def has_shape_def)
  from simulate_branches_returns_wide [OF br this]
  have "\<forall>i<length Ms'. has_shape (length (Ms' ! i)) G (Ms' ! i)"
    by simp
  from apply_topology_continuous [OF top this assms(2)] show ?thesis .
qed

theorem simulate_branching_data_continuity_witness:
  "simulate_branching_data 1 (three_branches [(0, 1), (1, 2)]) (\<lambda>i. steady_draws)
     = Some (Inr ([[[1 / 2], [1]], [[1], [3 / 2]], [[3 / 2], [2]]],
                  [[[1 / 2, 1 / 2], [1, 1]], [[1 / 2, 1 / 2], [1, 1]], [[1 / 2, 1 / 2], [1, 1]]]))
   \<and> topological (topology (three_branches [(0, 1), (1, 2)]))
   \<and> hd ([[[1 / 2], [1]], [[1], [3 / 2]], [[3 / 2], [2 :: real]]] ! 2)
       = last ([[[1 / 2], [1]], [[1], [3 / 2]], [[3 / 2], [2]]] ! 1)"
proof -
  have top: "topological (topology (three_branches [(0, 1), (1, 2)]))"
    by (simp add: three_branches_def)
  have "(1, 2) \<in> set (topology (three_branches [(0, 1), (1, 2)]))"
    by (simp add: three_branches_def)
  with simulate_branching_data_continuity [OF steady_in_order top]
  have "hd ([[[1 / 2], [1]], [[1], [3 / 2]], [[3 / 2], [2 :: real]]] ! snd (1 :: nat, 2 :: nat))
      = last ([[[1 / 2], [1]], [[1], [3 / 2]], [[3 / 2], [2]]] ! fst (1 :: nat, 2 :: nat))"
    by blast
  with steady_in_order top show ?thesis by simp
qed

theorem simulate_branching_data_continuity_counterexample:
  "simulate_branching_data 1 (three_branches [(1, 2), (0, 1)]) (\<lambda>i. steady_draws)
     = Some (Inr ([[[1 / 2], [1]], [[1], [3 / 2]], [[1], [3 / 2]]],
                  [[[1 / 2, 1 / 2], [1, 1]], [[1 / 2, 1 / 2], [1, 1]], [[1 / 2, 1 / 2], [1, 1]]]))
   \<and> hd ([[[1 / 2], [1]], [[1], [3 / 2]], [[1], [3 / 2 :: real]]] ! 2)
       \<noteq> last ([[[1 / 2], [1]], [[1], [3 / 2]], [[1], [3 / 2]]] ! 1)"
  using steady_out_of_order by simp

end
